theory Spec2Isabelle
  imports Complex_Main
begin

section \<open>Cue model (models.py)\<close>

text \<open>
  The four enumerations of \<^verbatim>\<open>models.py\<close>. Each is a \<^verbatim>\<open>str, Enum\<close> class; the
  member's value is its display string. A Python float is modelled as the \<^typ>\<open>real\<close>
  number it denotes; infinities and NaN are outside the model. The properties of the
  schedule and of the lanes do not depend on how a sum rounds and are stated with the
  exact \<open>+\<close>. Those of the global timeline do, and there every sum is rounded as
  binary64 rounds it (\<open>double_add\<close> below).
\<close>

datatype CueType = AUDIO | PROJECTION | TV | LIGHTING | INTERACTIVE | ACTIVITY
  | GROUP_MOVEMENT | FACILITATOR_ACTION

datatype TriggerType = TIMELINE | SENSOR | MANUAL

datatype PlayType = PLAY_ONCE | LOOP | AMBIENT

datatype StartMode = AT_TIME | AFTER_PREVIOUS | AFTER_CUE

record MediaCue =
  name :: string
  cue_type :: CueType
  trigger_type :: TriggerType
  play_type :: PlayType
  start_mode :: StartMode
  start_time_s :: real
  duration_s :: real
  dependency_name :: "string option"
  cue_notes :: string

section \<open>Scheduling (models.py, compute\_schedule)\<close>

text \<open>
  The inner loop \<^verbatim>\<open>for dep_index in range(index - 1, -1, -1)\<close>: the argument counts the
  indices still to visit, so \<open>Suc dep_index\<close> visits \<open>dep_index\<close> next. The variable
  \<^verbatim>\<open>start\<close> is 0.0 before the loop and stays so when no name matches.
\<close>

fun dep_scan :: "MediaCue list \<Rightarrow> real list \<Rightarrow> string \<Rightarrow> nat \<Rightarrow> real" where
  "dep_scan cues start_times dep 0 = 0"
| "dep_scan cues start_times dep (Suc dep_index) =
     (if name (cues ! dep_index) = dep
      then start_times ! dep_index + max (duration_s (cues ! dep_index)) 0
      else dep_scan cues start_times dep dep_index)"

text \<open>
  One iteration of the outer loop \<^verbatim>\<open>for index, cue in enumerate(cues)\<close> on the state
  \<open>(start_times, current_time)\<close>, branch by branch as the source has it, ending with
  \<^verbatim>\<open>start_times.append(start)\<close>. \<^verbatim>\<open>if cue.dependency_name:\<close> is Python truthiness: neither
  \<^verbatim>\<open>None\<close> nor the empty string. \<^verbatim>\<open>StartMode\<close> is a closed enumeration, so the source's
  final \<^verbatim>\<open>else\<close> branch has no value to run on.
\<close>

definition schedule_step ::
  "MediaCue list \<Rightarrow> nat \<Rightarrow> MediaCue \<Rightarrow> real list \<times> real \<Rightarrow> real list \<times> real" where
  "schedule_step cues index cue st =
     (case st of (start_times, current_time) \<Rightarrow>
        (case start_mode cue of
           AT_TIME \<Rightarrow>
             (let start = max (start_time_s cue) 0;
                  current_time = max current_time start
              in (start_times @ [start], current_time))
         | AFTER_PREVIOUS \<Rightarrow>
             (let start =
                    (if index = 0 then 0
                     else (let prev_start = start_times ! (index - 1);
                               prev_duration = max (duration_s (cues ! (index - 1))) 0
                           in prev_start + prev_duration));
                  current_time = start
              in (start_times @ [start], current_time))
         | AFTER_CUE \<Rightarrow>
             (let start =
                    (case dependency_name cue of
                       None \<Rightarrow> 0
                     | Some dep \<Rightarrow>
                         if dep = [] then 0 else dep_scan cues start_times dep index);
                  current_time = max current_time start
              in (start_times @ [start], current_time))))"

text \<open>The outer loop; the third argument is the part of the list still to visit.\<close>

fun schedule_loop ::
  "MediaCue list \<Rightarrow> nat \<Rightarrow> MediaCue list \<Rightarrow> real list \<times> real \<Rightarrow> real list \<times> real" where
  "schedule_loop cues index [] st = st"
| "schedule_loop cues index (cue # rest) st =
     schedule_loop cues (Suc index) rest (schedule_step cues index cue st)"

definition compute_schedule :: "MediaCue list \<Rightarrow> real list" where
  "compute_schedule cues = fst (schedule_loop cues 0 cues ([], 0))"

text \<open>
  The same recursion with the cursor removed: every line that mentions \<^verbatim>\<open>current_time\<close>
  is deleted, and the state is \<open>start_times\<close> alone.
\<close>

definition schedule_step_nocursor ::
  "MediaCue list \<Rightarrow> nat \<Rightarrow> MediaCue \<Rightarrow> real list \<Rightarrow> real list" where
  "schedule_step_nocursor cues index cue start_times =
     (case start_mode cue of
        AT_TIME \<Rightarrow>
          (let start = max (start_time_s cue) 0 in start_times @ [start])
      | AFTER_PREVIOUS \<Rightarrow>
          (let start =
                 (if index = 0 then 0
                  else (let prev_start = start_times ! (index - 1);
                            prev_duration = max (duration_s (cues ! (index - 1))) 0
                        in prev_start + prev_duration))
           in start_times @ [start])
      | AFTER_CUE \<Rightarrow>
          (let start =
                 (case dependency_name cue of
                    None \<Rightarrow> 0
                  | Some dep \<Rightarrow>
                      if dep = [] then 0 else dep_scan cues start_times dep index)
           in start_times @ [start]))"

fun schedule_loop_nocursor ::
  "MediaCue list \<Rightarrow> nat \<Rightarrow> MediaCue list \<Rightarrow> real list \<Rightarrow> real list" where
  "schedule_loop_nocursor cues index [] start_times = start_times"
| "schedule_loop_nocursor cues index (cue # rest) start_times =
     schedule_loop_nocursor cues (Suc index) rest
       (schedule_step_nocursor cues index cue start_times)"

definition compute_schedule_nocursor :: "MediaCue list \<Rightarrow> real list" where
  "compute_schedule_nocursor cues = schedule_loop_nocursor cues 0 cues []"

section \<open>Notions used to state the properties of the schedule\<close>

text \<open>
  The start that an iteration appends, as a function of the cues, the starts so far, the
  index and the cue; \<open>schedule_step_start\<close> below shows that both steps append it.
\<close>

definition cue_start :: "MediaCue list \<Rightarrow> real list \<Rightarrow> nat \<Rightarrow> MediaCue \<Rightarrow> real" where
  "cue_start cues start_times index cue =
     (case start_mode cue of
        AT_TIME \<Rightarrow> max (start_time_s cue) 0
      | AFTER_PREVIOUS \<Rightarrow>
          (if index = 0 then 0
           else start_times ! (index - 1) + max (duration_s (cues ! (index - 1))) 0)
      | AFTER_CUE \<Rightarrow>
          (case dependency_name cue of
             None \<Rightarrow> 0
           | Some dep \<Rightarrow> if dep = [] then 0 else dep_scan cues start_times dep index))"

section \<open>Double-precision addition\<close>

text \<open>
  Python's \<^verbatim>\<open>float\<close> is IEEE 754 binary64, and \<^verbatim>\<open>x + y\<close> on floats is the exact sum
  rounded to the nearest number with a 53-bit significand, ties to the even significand.
  A finite float is modelled as the real number it denotes. \<open>double_round\<close> scales its
  argument by the unit in the last place of its binade, so that the significand lies in
  \<open>[2^52, 2^53)\<close>, rounds the significand to an integer, and scales back. The exponent
  is not bounded: overflow to infinity is outside the model, as is NaN. A sum of two
  binary64 numbers that falls below the normal range is exact in binary64 and exact here,
  so on finite floats whose sum does not overflow \<open>double_add\<close> is the float sum.
  \<open>double_round_small\<close> and \<open>double_round_large\<close> below evaluate a rounding from the
  scaled significand.
\<close>

definition round_even :: "real \<Rightarrow> int" where
  "round_even q =
     (let f = \<lfloor>q\<rfloor>; r = q - of_int f
      in if r < 1 / 2 then f else if 1 / 2 < r then f + 1 else if even f then f else f + 1)"

definition double_round :: "real \<Rightarrow> real" where
  "double_round x =
     (if x = 0 then 0
      else (let ulp = 2 powr (of_int \<lfloor>log 2 \<bar>x\<bar>\<rfloor> - 52)
            in of_int (round_even (x / ulp)) * ulp))"

definition double_add :: "real \<Rightarrow> real \<Rightarrow> real" where
  "double_add x y = double_round (x + y)"

text \<open>The reals that are floats, and those among them that are not negative.\<close>

definition is_double :: "real \<Rightarrow> bool" where
  "is_double x \<longleftrightarrow> double_round x = x"

definition doubles :: "real set" where
  "doubles = {x. 0 \<le> x \<and> double_round x = x}"

section \<open>Scheduling with the addition as a parameter\<close>

text \<open>
  \<^verbatim>\<open>compute_schedule\<close> once more, line by line as above, with the two additions of the
  source, \<^verbatim>\<open>start_times[dep_index] + dep_dur\<close> and \<^verbatim>\<open>prev_start + prev_duration\<close>, taken
  through the parameter \<open>add\<close>. With \<open>(+)\<close> it is \<open>compute_schedule\<close>
  (\<open>compute_schedule_with_plus\<close> below); with \<open>double_add\<close> it is the schedule on floats.
\<close>

fun dep_scan_with ::
  "(real \<Rightarrow> real \<Rightarrow> real) \<Rightarrow> MediaCue list \<Rightarrow> real list \<Rightarrow> string \<Rightarrow> nat \<Rightarrow> real" where
  "dep_scan_with add cues start_times dep 0 = 0"
| "dep_scan_with add cues start_times dep (Suc dep_index) =
     (if name (cues ! dep_index) = dep
      then add (start_times ! dep_index) (max (duration_s (cues ! dep_index)) 0)
      else dep_scan_with add cues start_times dep dep_index)"

definition schedule_step_with ::
  "(real \<Rightarrow> real \<Rightarrow> real) \<Rightarrow> MediaCue list \<Rightarrow> nat \<Rightarrow> MediaCue \<Rightarrow> real list \<times> real
     \<Rightarrow> real list \<times> real" where
  "schedule_step_with add cues index cue st =
     (case st of (start_times, current_time) \<Rightarrow>
        (case start_mode cue of
           AT_TIME \<Rightarrow>
             (let start = max (start_time_s cue) 0;
                  current_time = max current_time start
              in (start_times @ [start], current_time))
         | AFTER_PREVIOUS \<Rightarrow>
             (let start =
                    (if index = 0 then 0
                     else (let prev_start = start_times ! (index - 1);
                               prev_duration = max (duration_s (cues ! (index - 1))) 0
                           in add prev_start prev_duration));
                  current_time = start
              in (start_times @ [start], current_time))
         | AFTER_CUE \<Rightarrow>
             (let start =
                    (case dependency_name cue of
                       None \<Rightarrow> 0
                     | Some dep \<Rightarrow>
                         if dep = [] then 0 else dep_scan_with add cues start_times dep index);
                  current_time = max current_time start
              in (start_times @ [start], current_time))))"

fun schedule_loop_with ::
  "(real \<Rightarrow> real \<Rightarrow> real) \<Rightarrow> MediaCue list \<Rightarrow> nat \<Rightarrow> MediaCue list \<Rightarrow> real list \<times> real
     \<Rightarrow> real list \<times> real" where
  "schedule_loop_with add cues index [] st = st"
| "schedule_loop_with add cues index (cue # rest) st =
     schedule_loop_with add cues (Suc index) rest (schedule_step_with add cues index cue st)"

definition compute_schedule_with :: "(real \<Rightarrow> real \<Rightarrow> real) \<Rightarrow> MediaCue list \<Rightarrow> real list" where
  "compute_schedule_with add cues = fst (schedule_loop_with add cues 0 cues ([], 0))"

section \<open>Lane allocation (room\_tab.py, summary\_tab.py)\<close>

text \<open>
  The greedy lane allocator is written three times in the source, with the same loop:
  \<^verbatim>\<open>compute_lanes(intervals)\<close> in the PDF export of \<^verbatim>\<open>summary_tab.py\<close>, on a list of
  \<open>(start, end)\<close> pairs; \<^verbatim>\<open>TimelineView._compute_lanes\<close> in \<^verbatim>\<open>room_tab.py\<close>, on the cues of
  a room and their start times; and \<^verbatim>\<open>GlobalTimelineView._compute_lanes\<close> in
  \<^verbatim>\<open>summary_tab.py\<close>, on the items of the global timeline. They differ only in how the
  start and the end of item \<open>i\<close> are read, so the loop is modelled once, over two
  functions \<open>start_of\<close> and \<open>end_of\<close> from the index to the time.
\<close>

text \<open>
  The inner loop \<^verbatim>\<open>for lane_idx, lane_end in enumerate(lane_end_times)\<close> up to its
  \<^verbatim>\<open>break\<close>: the index of the first lane whose end time is at most \<open>start\<close>, or \<open>None\<close>
  when the loop ends with \<^verbatim>\<open>placed\<close> still false. The last argument is the index of the
  head of the list.
\<close>

fun first_free :: "real \<Rightarrow> real list \<Rightarrow> nat \<Rightarrow> nat option" where
  "first_free start [] lane_idx = None"
| "first_free start (lane_end # rest) lane_idx =
     (if start \<ge> lane_end then Some lane_idx else first_free start rest (Suc lane_idx))"

text \<open>
  One iteration of the outer loop on the state \<open>(lane_end_times, item_lane)\<close>: item \<open>i\<close>
  goes to the lane found, whose end time becomes \<open>end\<close>, or to a new lane appended with
  end time \<open>end\<close>.
\<close>

definition place :: "real \<Rightarrow> real \<Rightarrow> nat \<Rightarrow> real list \<times> nat list \<Rightarrow> real list \<times> nat list" where
  "place start end i st =
     (case st of (lane_end_times, item_lane) \<Rightarrow>
        (case first_free start lane_end_times 0 of
           Some lane_idx \<Rightarrow> (lane_end_times[lane_idx := end], item_lane[i := lane_idx])
         | None \<Rightarrow> (lane_end_times @ [end], item_lane[i := length lane_end_times])))"

text \<open>The outer loop \<^verbatim>\<open>for i in indices\<close>.\<close>

fun lanes_loop ::
  "(nat \<Rightarrow> real) \<Rightarrow> (nat \<Rightarrow> real) \<Rightarrow> nat list \<Rightarrow> real list \<times> nat list \<Rightarrow> real list \<times> nat list" where
  "lanes_loop start_of end_of [] st = st"
| "lanes_loop start_of end_of (i # indices) st =
     lanes_loop start_of end_of indices (place (start_of i) (end_of i) i st)"

text \<open>
  The whole function: \<^verbatim>\<open>indices.sort(key=...)\<close> is a stable sort of \<open>0, ..., n - 1\<close> by
  start time, as \<^const>\<open>sort_key\<close> is; \<^verbatim>\<open>item_lane\<close> starts as \<^verbatim>\<open>[0] * n\<close>.
\<close>

definition greedy_lanes :: "(nat \<Rightarrow> real) \<Rightarrow> (nat \<Rightarrow> real) \<Rightarrow> nat \<Rightarrow> nat list" where
  "greedy_lanes start_of end_of n =
     (if n = 0 then []
      else snd (lanes_loop start_of end_of (sort_key start_of [0..<n]) ([], replicate n 0)))"

text \<open>\<^verbatim>\<open>compute_lanes(intervals)\<close>: \<^verbatim>\<open>start, end = intervals[i]\<close>.\<close>

definition compute_lanes :: "(real \<times> real) list \<Rightarrow> nat list" where
  "compute_lanes intervals =
     greedy_lanes (\<lambda>i. fst (intervals ! i)) (\<lambda>i. snd (intervals ! i)) (length intervals)"

text \<open>
  \<^verbatim>\<open>TimelineView._compute_lanes\<close>: the start is \<^verbatim>\<open>self._start_times[i]\<close> and the end is the
  start plus \<^verbatim>\<open>max(self._cues[i].duration_s, 0.0)\<close>. The view's two lists are set
  together by \<^verbatim>\<open>set_cues\<close>, the second as \<^verbatim>\<open>compute_schedule\<close> of the first.
\<close>

definition TimelineView_compute_lanes :: "MediaCue list \<Rightarrow> real list \<Rightarrow> nat list" where
  "TimelineView_compute_lanes cues start_times =
     greedy_lanes (\<lambda>i. start_times ! i)
       (\<lambda>i. start_times ! i + max (duration_s (cues ! i)) 0) (length cues)"

text \<open>The items of the global timeline (\<^verbatim>\<open>GlobalTimelineItem\<close> in \<^verbatim>\<open>summary_tab.py\<close>).\<close>

record GlobalTimelineItem =
  room_name :: string
  cue :: MediaCue
  start_time :: real
  duration :: real

text \<open>
  \<^verbatim>\<open>GlobalTimelineView._compute_lanes\<close>: the start is \<^verbatim>\<open>item.start_time\<close> and the end is the
  start plus \<^verbatim>\<open>max(item.duration, 0.0)\<close>.
\<close>

definition GlobalTimelineView_compute_lanes :: "GlobalTimelineItem list \<Rightarrow> nat list" where
  "GlobalTimelineView_compute_lanes items =
     greedy_lanes (\<lambda>i. start_time (items ! i))
       (\<lambda>i. start_time (items ! i) + max (duration (items ! i)) 0) (length items)"

text \<open>
  The interval lists that the PDF export hands to \<^verbatim>\<open>compute_lanes\<close>: for the items of a
  room, \<^verbatim>\<open>(it.start_time, it.start_time + max(it.duration, 0.0))\<close>, and for the cues of a
  room with their starts, \<^verbatim>\<open>(start, start + max(cue.duration_s, 0.0))\<close>.
\<close>

definition item_intervals :: "GlobalTimelineItem list \<Rightarrow> (real \<times> real) list" where
  "item_intervals items = map (\<lambda>it. (start_time it, start_time it + max (duration it) 0)) items"

definition cue_intervals :: "(real \<times> MediaCue) list \<Rightarrow> (real \<times> real) list" where
  "cue_intervals timeline_entries =
     map (\<lambda>(start, c). (start, start + max (duration_s c) 0)) timeline_entries"
section \<open>Global timeline (summary\_tab.py, \_compute\_all\_stats)\<close>

text \<open>
  \<^verbatim>\<open>SummaryTab._compute_all_stats\<close> walks the room tabs in show order and builds the list
  \<^verbatim>\<open>global_items\<close> and the running \<^verbatim>\<open>global_offset\<close>, which it returns as
  \<^verbatim>\<open>total_show_duration\<close>. A room tab is read through \<^verbatim>\<open>tab.room_name\<close> and
  \<^verbatim>\<open>tab.get_cues()\<close> only and is modelled as that pair. The statistics dictionaries that
  the same loop fills are never read back by it and are left out.

  Whether one room's entries end before the next room's begin depends on how the sums
  round, so every addition of the source is a \<open>double_add\<close> here, and the local starts
  are those of the schedule on floats.
\<close>

text \<open>
  The inner loop \<^verbatim>\<open>for cue, local_start in zip(cues, starts)\<close> on the state
  \<open>(global_items, room_end)\<close>: \<^verbatim>\<open>end = local_start + duration\<close> and
  \<^verbatim>\<open>start_time=global_offset + local_start\<close>.
\<close>

fun room_loop ::
  "string \<Rightarrow> real \<Rightarrow> (MediaCue \<times> real) list \<Rightarrow> GlobalTimelineItem list \<times> real
     \<Rightarrow> GlobalTimelineItem list \<times> real" where
  "room_loop rn global_offset [] st = st"
| "room_loop rn global_offset ((c, local_start) # rest) (global_items, room_end) =
     (let duration = max (duration_s c) 0;
          end = double_add local_start duration
      in room_loop rn global_offset rest
           (global_items @ [\<lparr>room_name = rn, cue = c,
               start_time = double_add global_offset local_start, duration = duration\<rparr>],
            max room_end end))"

text \<open>
  The outer loop \<^verbatim>\<open>for tab in self._room_tabs\<close> on the state
  \<open>(global_items, global_offset)\<close>. A tab without cues is skipped by \<^verbatim>\<open>continue\<close>;
  otherwise \<^verbatim>\<open>room_end\<close> starts at 0.0 and \<^verbatim>\<open>global_offset += room_end\<close> follows the inner
  loop.
\<close>

fun stats_loop ::
  "(string \<times> MediaCue list) list \<Rightarrow> GlobalTimelineItem list \<times> real
     \<Rightarrow> GlobalTimelineItem list \<times> real" where
  "stats_loop [] st = st"
| "stats_loop ((rn, cues) # tabs) (global_items, global_offset) =
     (if cues = [] then stats_loop tabs (global_items, global_offset)
      else
        (let starts = compute_schedule_with double_add cues;
             (global_items', room_end) =
               room_loop rn global_offset (zip cues starts) (global_items, 0)
         in stats_loop tabs (global_items', double_add global_offset room_end)))"

definition compute_all_stats ::
  "(string \<times> MediaCue list) list \<Rightarrow> GlobalTimelineItem list \<times> real" where
  "compute_all_stats room_tabs = stats_loop room_tabs ([], 0)"

text \<open>
  The interval that \<^verbatim>\<open>GlobalTimelineView\<close> computes for an item, in \<^verbatim>\<open>_compute_lanes\<close>
  and in \<^verbatim>\<open>_redraw\<close>: from \<^verbatim>\<open>start_time\<close> to \<^verbatim>\<open>start_time + max(duration, 0.0)\<close>, a
  float sum.
\<close>

definition view_interval :: "GlobalTimelineItem \<Rightarrow> real \<times> real" where
  "view_interval it = (start_time it, double_add (start_time it) (max (duration it) 0))"

section \<open>Serialization (models.py, to\_dict and from\_dict; main.py, \_open\_file)\<close>

text \<open>
  What \<^verbatim>\<open>json.load\<close> returns and \<^verbatim>\<open>json.dump\<close> accepts: \<^verbatim>\<open>None\<close>, booleans, integers,
  floats, strings, lists, and dictionaries with string keys. A dictionary is an
  association list read with \<^const>\<open>map_of\<close>.
\<close>

datatype pyval = PyNone | PyBool bool | PyInt int | PyFloat real | PyStr string
  | PyList "pyval list" | PyDict "(string \<times> pyval) list"

text \<open>
  The exceptions that deserialization can raise. The dataclasses do not check the types
  of the values stored in them: \<^verbatim>\<open>from_dict\<close> stores \<^verbatim>\<open>name\<close>, \<^verbatim>\<open>notes\<close> and
  \<^verbatim>\<open>dependency_name\<close> as found. The records of this theory hold strings there, so where
  Python raises nothing and returns an object with another kind of value in such a field,
  the model answers \<open>IllTyped\<close>: it is no exception, and it is answered only when no
  exception is raised.
\<close>

datatype py_error = ValueError | TypeError | AttributeError | IllTyped

text \<open>The display strings of the enumerations (\<^verbatim>\<open>member.value\<close>).\<close>

fun CueType_value :: "CueType \<Rightarrow> string" where
  "CueType_value AUDIO = ''Audio''"
| "CueType_value PROJECTION = ''Projection''"
| "CueType_value TV = ''TV''"
| "CueType_value LIGHTING = ''Lighting''"
| "CueType_value INTERACTIVE = ''Interactive''"
| "CueType_value ACTIVITY = ''Activity''"
| "CueType_value GROUP_MOVEMENT = ''Group Movement''"
| "CueType_value FACILITATOR_ACTION = ''Facilitator Action''"

fun TriggerType_value :: "TriggerType \<Rightarrow> string" where
  "TriggerType_value TIMELINE = ''Timeline (auto)''"
| "TriggerType_value SENSOR = ''Sensor''"
| "TriggerType_value MANUAL = ''Manual (operator)''"

fun PlayType_value :: "PlayType \<Rightarrow> string" where
  "PlayType_value PLAY_ONCE = ''Play once''"
| "PlayType_value LOOP = ''Loop''"
| "PlayType_value AMBIENT = ''Ambient''"

fun StartMode_value :: "StartMode \<Rightarrow> string" where
  "StartMode_value AT_TIME = ''At fixed time (s)''"
| "StartMode_value AFTER_PREVIOUS = ''After previous cue''"
| "StartMode_value AFTER_CUE = ''After cue''"

text \<open>
  Calling an enumeration class on a value, as in \<^verbatim>\<open>CueType(type_value)\<close>: the member with
  that value, or \<^verbatim>\<open>ValueError\<close>. The members' values are strings, so no other kind of
  value is the value of a member.
\<close>

definition enum_of :: "('a \<Rightarrow> string) \<Rightarrow> 'a list \<Rightarrow> pyval \<Rightarrow> py_error + 'a" where
  "enum_of value_of members v =
     (case v of
        PyStr s \<Rightarrow>
          (case find (\<lambda>m. value_of m = s) members of
             Some m \<Rightarrow> Inr m
           | None \<Rightarrow> Inl ValueError)
      | _ \<Rightarrow> Inl ValueError)"

definition CueType_of :: "pyval \<Rightarrow> py_error + CueType" where
  "CueType_of = enum_of CueType_value
     [AUDIO, PROJECTION, TV, LIGHTING, INTERACTIVE, ACTIVITY, GROUP_MOVEMENT,
      FACILITATOR_ACTION]"

definition TriggerType_of :: "pyval \<Rightarrow> py_error + TriggerType" where
  "TriggerType_of = enum_of TriggerType_value [TIMELINE, SENSOR, MANUAL]"

definition PlayType_of :: "pyval \<Rightarrow> py_error + PlayType" where
  "PlayType_of = enum_of PlayType_value [PLAY_ONCE, LOOP, AMBIENT]"

definition StartMode_of :: "pyval \<Rightarrow> py_error + StartMode" where
  "StartMode_of = enum_of StartMode_value [AT_TIME, AFTER_PREVIOUS, AFTER_CUE]"

text \<open>Python's truth value of a value, as the operator \<^verbatim>\<open>or\<close> tests it.\<close>

fun truthy :: "pyval \<Rightarrow> bool" where
  "truthy PyNone = False"
| "truthy (PyBool b) = b"
| "truthy (PyInt i) = (i \<noteq> 0)"
| "truthy (PyFloat r) = (r \<noteq> 0)"
| "truthy (PyStr s) = (s \<noteq> [])"
| "truthy (PyList xs) = (xs \<noteq> [])"
| "truthy (PyDict kvs) = (kvs \<noteq> [])"

text \<open>\<^verbatim>\<open>data.get(key)\<close> and \<^verbatim>\<open>data.get(key, default)\<close>.\<close>

definition get :: "(string \<times> pyval) list \<Rightarrow> string \<Rightarrow> pyval" where
  "get data key = (case map_of data key of None \<Rightarrow> PyNone | Some v \<Rightarrow> v)"

definition get_default :: "(string \<times> pyval) list \<Rightarrow> string \<Rightarrow> pyval \<Rightarrow> pyval" where
  "get_default data key fallback = (case map_of data key of None \<Rightarrow> fallback | Some v \<Rightarrow> v)"

text \<open>
  The builtin \<^verbatim>\<open>float(v)\<close>. How Python reads a number from a string is not part of the
  repository and is a parameter \<open>str_to_float\<close>, \<open>None\<close> where Python raises
  \<^verbatim>\<open>ValueError\<close>. Floats being modelled as reals, every integer has a float; the
  \<^verbatim>\<open>OverflowError\<close> of an integer beyond the range of floats is outside the model.
\<close>

fun py_float :: "(string \<Rightarrow> real option) \<Rightarrow> pyval \<Rightarrow> py_error + real" where
  "py_float str_to_float PyNone = Inl TypeError"
| "py_float str_to_float (PyBool b) = Inr (if b then 1 else 0)"
| "py_float str_to_float (PyInt i) = Inr (real_of_int i)"
| "py_float str_to_float (PyFloat r) = Inr r"
| "py_float str_to_float (PyStr s) =
     (case str_to_float s of None \<Rightarrow> Inl ValueError | Some r \<Rightarrow> Inr r)"
| "py_float str_to_float (PyList xs) = Inl TypeError"
| "py_float str_to_float (PyDict kvs) = Inl TypeError"

text \<open>A value stored in a field declared \<^verbatim>\<open>str\<close>.\<close>

fun as_str :: "pyval \<Rightarrow> py_error + string" where
  "as_str (PyStr s) = Inr s"
| "as_str v = Inl IllTyped"

text \<open>
  \<^verbatim>\<open>data.get("dependency_name") or None\<close>, stored in a field declared \<^verbatim>\<open>str | None\<close>: every
  value that Python takes as false, the empty string among them, becomes \<^verbatim>\<open>None\<close>.
\<close>

definition dependency_of :: "pyval \<Rightarrow> py_error + string option" where
  "dependency_of v =
     (if truthy v then (case v of PyStr s \<Rightarrow> Inr (Some s) | _ \<Rightarrow> Inl IllTyped)
      else Inr None)"

text \<open>\<^verbatim>\<open>MediaCue.to_dict\<close>.\<close>

definition MediaCue_to_dict :: "MediaCue \<Rightarrow> (string \<times> pyval) list" where
  "MediaCue_to_dict self =
     [(''name'', PyStr (name self)),
      (''cue_type'', PyStr (CueType_value (cue_type self))),
      (''trigger_type'', PyStr (TriggerType_value (trigger_type self))),
      (''play_type'', PyStr (PlayType_value (play_type self))),
      (''start_mode'', PyStr (StartMode_value (start_mode self))),
      (''start_time_s'', PyFloat (start_time_s self)),
      (''duration_s'', PyFloat (duration_s self)),
      (''dependency_name'',
         (case dependency_name self of None \<Rightarrow> PyNone | Some s \<Rightarrow> PyStr s)),
      (''notes'', PyStr (cue_notes self))]"

text \<open>
  \<^verbatim>\<open>MediaCue.from_dict\<close>. \<^verbatim>\<open>type_value\<close> is the chain
  \<^verbatim>\<open>data.get("cue_type") or data.get("media_type") or CueType.AUDIO.value\<close>. The arguments
  of the constructor call are evaluated in the order written, so the first exception is
  that of the first of \<^verbatim>\<open>CueType(...)\<close>, \<^verbatim>\<open>TriggerType(...)\<close>, \<^verbatim>\<open>PlayType(...)\<close>,
  \<^verbatim>\<open>StartMode(...)\<close> and the two \<^verbatim>\<open>float(...)\<close> that raises; the other three arguments
  raise nothing.
\<close>

definition type_value_of :: "(string \<times> pyval) list \<Rightarrow> pyval" where
  "type_value_of data =
     (if truthy (get data ''cue_type'') then get data ''cue_type''
      else if truthy (get data ''media_type'') then get data ''media_type''
      else PyStr (CueType_value AUDIO))"

definition MediaCue_from_dict ::
  "(string \<Rightarrow> real option) \<Rightarrow> (string \<times> pyval) list \<Rightarrow> py_error + MediaCue" where
  "MediaCue_from_dict str_to_float data =
     (case CueType_of (type_value_of data) of Inl e \<Rightarrow> Inl e | Inr ct \<Rightarrow>
      case TriggerType_of (get_default data ''trigger_type'' (PyStr (TriggerType_value TIMELINE)))
        of Inl e \<Rightarrow> Inl e | Inr tt \<Rightarrow>
      case PlayType_of (get_default data ''play_type'' (PyStr (PlayType_value PLAY_ONCE)))
        of Inl e \<Rightarrow> Inl e | Inr pt \<Rightarrow>
      case StartMode_of (get_default data ''start_mode'' (PyStr (StartMode_value AT_TIME)))
        of Inl e \<Rightarrow> Inl e | Inr sm \<Rightarrow>
      case py_float str_to_float (get_default data ''start_time_s'' (PyFloat 0))
        of Inl e \<Rightarrow> Inl e | Inr st \<Rightarrow>
      case py_float str_to_float (get_default data ''duration_s'' (PyFloat 0))
        of Inl e \<Rightarrow> Inl e | Inr du \<Rightarrow>
      case as_str (get_default data ''name'' (PyStr [])) of Inl e \<Rightarrow> Inl e | Inr n \<Rightarrow>
      case dependency_of (get data ''dependency_name'') of Inl e \<Rightarrow> Inl e | Inr dep \<Rightarrow>
      case as_str (get_default data ''notes'' (PyStr [])) of Inl e \<Rightarrow> Inl e | Inr nt \<Rightarrow>
      Inr \<lparr>name = n, cue_type = ct, trigger_type = tt, play_type = pt, start_mode = sm,
           start_time_s = st, duration_s = du, dependency_name = dep, cue_notes = nt\<rparr>)"

text \<open>
  A list comprehension \<^verbatim>\<open>[f(x) for x in xs]\<close>: the first exception raised ends it. An
  element on which \<open>f\<close> answers \<open>IllTyped\<close> raises nothing, so the elements after it are
  still visited and an exception among them is the result.
\<close>

fun collect :: "('a \<Rightarrow> py_error + 'b) \<Rightarrow> 'a list \<Rightarrow> py_error + 'b list" where
  "collect f [] = Inr []"
| "collect f (x # xs) =
     (case f x of
        Inl e \<Rightarrow>
          (if e = IllTyped
           then (case collect f xs of Inl e' \<Rightarrow> Inl e' | Inr ys \<Rightarrow> Inl IllTyped)
           else Inl e)
      | Inr y \<Rightarrow> (case collect f xs of Inl e \<Rightarrow> Inl e | Inr ys \<Rightarrow> Inr (y # ys)))"

text \<open>
  Iterating over a value, as \<^verbatim>\<open>for c in data.get("cues", [])\<close> does: the elements of a
  list, the characters of a string, the keys of a dictionary, and \<^verbatim>\<open>TypeError\<close> for a
  value that is not iterable.
\<close>

fun py_iter :: "pyval \<Rightarrow> py_error + pyval list" where
  "py_iter (PyList xs) = Inr xs"
| "py_iter (PyStr s) = Inr (map (\<lambda>ch. PyStr [ch]) s)"
| "py_iter (PyDict kvs) = Inr (map (\<lambda>(k, v). PyStr k) kvs)"
| "py_iter v = Inl TypeError"

text \<open>
  \<^verbatim>\<open>MediaCue.from_dict(c)\<close> on an element of such an iteration: only a dictionary has the
  method \<^verbatim>\<open>get\<close>.
\<close>

definition cue_from ::
  "(string \<Rightarrow> real option) \<Rightarrow> pyval \<Rightarrow> py_error + MediaCue" where
  "cue_from str_to_float c =
     (case c of PyDict data \<Rightarrow> MediaCue_from_dict str_to_float data | _ \<Rightarrow> Inl AttributeError)"

text \<open>
  \<^verbatim>\<open>RoomPlan\<close> and \<^verbatim>\<open>ShowPlan\<close>. The fields \<^verbatim>\<open>name\<close> and \<^verbatim>\<open>cues\<close> of \<^verbatim>\<open>RoomPlan\<close> are
  called \<open>plan_name\<close> and \<open>plan_cues\<close> here, \<open>name\<close> being a field of \<open>MediaCue\<close>.
\<close>

record RoomPlan =
  plan_name :: string
  plan_cues :: "MediaCue list"

record ShowPlan =
  rooms :: "RoomPlan list"

definition RoomPlan_to_dict :: "RoomPlan \<Rightarrow> pyval" where
  "RoomPlan_to_dict self =
     PyDict [(''name'', PyStr (plan_name self)),
             (''cues'', PyList (map (\<lambda>c. PyDict (MediaCue_to_dict c)) (plan_cues self)))]"

definition RoomPlan_from_dict :: "(string \<Rightarrow> real option) \<Rightarrow> pyval \<Rightarrow> py_error + RoomPlan" where
  "RoomPlan_from_dict str_to_float r =
     (case r of
        PyDict data \<Rightarrow>
          (case py_iter (get_default data ''cues'' (PyList [])) of Inl e \<Rightarrow> Inl e | Inr cs \<Rightarrow>
           case collect (cue_from str_to_float) cs of Inl e \<Rightarrow> Inl e | Inr cues \<Rightarrow>
           case as_str (get_default data ''name'' (PyStr ''Room'')) of Inl e \<Rightarrow> Inl e | Inr n \<Rightarrow>
           Inr \<lparr>plan_name = n, plan_cues = cues\<rparr>)
      | _ \<Rightarrow> Inl AttributeError)"

definition ShowPlan_to_dict :: "ShowPlan \<Rightarrow> pyval" where
  "ShowPlan_to_dict self = PyDict [(''rooms'', PyList (map RoomPlan_to_dict (rooms self)))]"

definition ShowPlan_from_dict :: "(string \<Rightarrow> real option) \<Rightarrow> pyval \<Rightarrow> py_error + ShowPlan" where
  "ShowPlan_from_dict str_to_float data =
     (case data of
        PyDict kvs \<Rightarrow>
          (case py_iter (get_default kvs ''rooms'' (PyList [])) of Inl e \<Rightarrow> Inl e | Inr rs \<Rightarrow>
           case collect (RoomPlan_from_dict str_to_float) rs of Inl e \<Rightarrow> Inl e | Inr rps \<Rightarrow>
           Inr \<lparr>rooms = rps\<rparr>)
      | _ \<Rightarrow> Inl AttributeError)"

text \<open>
  \<^verbatim>\<open>MainWindow._open_file\<close> from the parsed document on, over the room tabs as pairs of
  room name and cues. \<^verbatim>\<open>tab_by_name\<close> maps a name to the last tab of that name;
  \<^verbatim>\<open>set_cues\<close> replaces the cues of a tab.
\<close>

fun set_cues_by_name ::
  "string \<Rightarrow> MediaCue list \<Rightarrow> (string \<times> MediaCue list) list \<Rightarrow> (string \<times> MediaCue list) list" where
  "set_cues_by_name n cs [] = []"
| "set_cues_by_name n cs ((rn, old) # tabs) =
     (if rn = n \<and> n \<notin> set (map fst tabs) then (rn, cs) # tabs
      else (rn, old) # set_cues_by_name n cs tabs)"

text \<open>
  An exception of \<^verbatim>\<open>ShowPlan.from_dict\<close> is caught by \<^verbatim>\<open>except Exception\<close>: the error is
  shown and the method returns before it touches a tab. Otherwise every tab is cleared
  and the rooms of the plan are stored in the tabs of their names, in order. The result
  is the tabs afterwards and the exception shown, if any.
\<close>

definition open_file ::
  "(string \<Rightarrow> real option) \<Rightarrow> pyval \<Rightarrow> (string \<times> MediaCue list) list
     \<Rightarrow> (string \<times> MediaCue list) list \<times> py_error option" where
  "open_file str_to_float data room_tabs =
     (case ShowPlan_from_dict str_to_float data of
        Inl exc \<Rightarrow> (room_tabs, Some exc)
      | Inr plan \<Rightarrow>
          (fold (\<lambda>room_plan tabs. set_cues_by_name (plan_name room_plan) (plan_cues room_plan) tabs)
             (rooms plan) (map (\<lambda>(rn, old). (rn, [])) room_tabs),
           None))"
section \<open>Notions used to state the properties of the lanes\<close>

text \<open>Two intervals overlap when each starts before the other ends.\<close>

definition overlaps :: "real \<times> real \<Rightarrow> real \<times> real \<Rightarrow> bool" where
  "overlaps a b \<longleftrightarrow> fst a < snd b \<and> fst b < snd a"

text \<open>
  The number of lanes of an assignment is its largest lane index plus one; the empty
  assignment has no lane.
\<close>

definition num_lanes :: "nat list \<Rightarrow> nat" where
  "num_lanes lanes = (if lanes = [] then 0 else Max (set lanes) + 1)"

text \<open>
  The number of intervals in flight at the instant \<open>t\<close>, an interval being in flight from
  its start up to, and not including, its end; and the largest such number over the
  instants at which an interval starts. Lemma \<open>in_flight_le_max_overlap\<close> below shows that
  no other instant has more.
\<close>

definition in_flight :: "(real \<times> real) list \<Rightarrow> real \<Rightarrow> nat" where
  "in_flight intervals t = length (filter (\<lambda>(start, end). start \<le> t \<and> t < end) intervals)"

definition max_overlap :: "(real \<times> real) list \<Rightarrow> nat" where
  "max_overlap intervals =
     (if intervals = [] then 0
      else Max (set (map (\<lambda>(start, end). in_flight intervals start) intervals)))"

text \<open>The same count over indices, for the loop's invariants.\<close>

definition overlap_at :: "(nat \<Rightarrow> real) \<Rightarrow> (nat \<Rightarrow> real) \<Rightarrow> nat \<Rightarrow> real \<Rightarrow> nat" where
  "overlap_at S E n t = card {i. i < n \<and> S i \<le> t \<and> t < E i}"

text \<open>
  The invariant of the outer loop after the items of \<open>P\<close> have been placed, with lane end
  times \<open>L\<close> and assignment \<open>A\<close>: every placed item is in an existing lane that ends no
  earlier than the item; two placed items of one lane do not overlap; and every lane's end
  time is the end of an item placed in it.
\<close>

definition lanes_ok ::
  "(nat \<Rightarrow> real) \<Rightarrow> (nat \<Rightarrow> real) \<Rightarrow> nat set \<Rightarrow> real list \<Rightarrow> nat list \<Rightarrow> bool" where
  "lanes_ok S E P L A \<longleftrightarrow>
     (\<forall>a\<in>P. A ! a < length L \<and> E a \<le> L ! (A ! a))
     \<and> (\<forall>a\<in>P. \<forall>b\<in>P. a \<noteq> b \<and> A ! a = A ! b \<longrightarrow> E a \<le> S b \<or> E b \<le> S a)
     \<and> (\<forall>k<length L. \<exists>y\<in>P. A ! y = k \<and> E y = L ! k)"
section \<open>Notions used to state the properties of the global timeline\<close>

text \<open>
  The end of a room: the largest \<open>local_start + max(duration, 0)\<close> over its cues, and 0 for
  a room without cues.
\<close>

definition room_end_of :: "MediaCue list \<Rightarrow> real" where
  "room_end_of cues =
     (if cues = [] then 0
      else Max (set (map (\<lambda>(c, local_start). double_add local_start (max (duration_s c) 0))
                      (zip cues (compute_schedule_with double_add cues)))))"

text \<open>
  The sum of the room ends of the rooms before room \<open>N\<close>, added up from 0.0 in show order
  as the running offset is.
\<close>

definition room_offset :: "(string \<times> MediaCue list) list \<Rightarrow> nat \<Rightarrow> real" where
  "room_offset room_tabs N =
     foldl (\<lambda>total (rn, cues). double_add total (room_end_of cues)) 0 (take N room_tabs)"

text \<open>
  The entries of \<^verbatim>\<open>global_items\<close> emitted for room \<open>N\<close>: each room appends one entry per
  cue, so they are the \<open>length cues\<close> entries that follow those of the rooms before.
\<close>

definition room_entries :: "(string \<times> MediaCue list) list \<Rightarrow> nat \<Rightarrow> GlobalTimelineItem list" where
  "room_entries room_tabs N =
     take (length (snd (room_tabs ! N)))
       (drop (sum_list (map (\<lambda>(rn, cues). length cues) (take N room_tabs)))
          (fst (compute_all_stats room_tabs)))"

text \<open>
  The entries of one room written as a map over its cues and their local starts, and the
  whole list written by recursion over the rooms; \<open>stats_loop_eq\<close> below shows that the
  loops compute these.
\<close>

definition entries_of :: "string \<Rightarrow> real \<Rightarrow> MediaCue list \<Rightarrow> GlobalTimelineItem list" where
  "entries_of rn off cues =
     map (\<lambda>(c, local_start). \<lparr>room_name = rn, cue = c,
            start_time = double_add off local_start, duration = max (duration_s c) 0\<rparr>)
       (zip cues (compute_schedule_with double_add cues))"

fun global_entries :: "real \<Rightarrow> (string \<times> MediaCue list) list \<Rightarrow> GlobalTimelineItem list" where
  "global_entries off [] = []"
| "global_entries off ((rn, cues) # tabs) =
     entries_of rn off cues @ global_entries (double_add off (room_end_of cues)) tabs"

text \<open>
  The cues hold floats: \<^verbatim>\<open>start_time_s\<close> and \<^verbatim>\<open>duration_s\<close> of every cue of every room
  are numbers that binary64 has.
\<close>

definition double_fields :: "MediaCue \<Rightarrow> bool" where
  "double_fields c \<longleftrightarrow> is_double (start_time_s c) \<and> is_double (duration_s c)"

definition double_tabs :: "(string \<times> MediaCue list) list \<Rightarrow> bool" where
  "double_tabs room_tabs \<longleftrightarrow> list_all (\<lambda>(rn, cues). list_all double_fields cues) room_tabs"

section \<open>Notions used to state the properties of serialization\<close>

text \<open>
  A cue as it comes back from \<^verbatim>\<open>to_dict\<close> and \<^verbatim>\<open>from_dict\<close>: an empty dependency name has
  become \<^verbatim>\<open>None\<close>.
\<close>

definition normalised :: "MediaCue \<Rightarrow> MediaCue" where
  "normalised c =
     c\<lparr>dependency_name := (if dependency_name c = Some [] then None else dependency_name c)\<rparr>"

section \<open>Examples\<close>

text \<open>The dataclass defaults of \<^verbatim>\<open>MediaCue\<close>: \<^verbatim>\<open>MediaCue(name=n)\<close>.\<close>

definition default_cue :: "string \<Rightarrow> MediaCue" where
  "default_cue n = \<lparr>name = n, cue_type = AUDIO, trigger_type = TIMELINE,
     play_type = PLAY_ONCE, start_mode = AT_TIME, start_time_s = 0, duration_s = 0,
     dependency_name = None, cue_notes = []\<rparr>"

text \<open>
  Two cues named \<open>a\<close> followed by a cue that starts after \<open>a\<close>, and a cue that starts
  after the previous one.
\<close>

definition example_room :: "MediaCue list" where
  "example_room =
     [(default_cue ''a'')\<lparr>start_time_s := 5, duration_s := 5\<rparr>,
      (default_cue ''a'')\<lparr>start_time_s := 20, duration_s := 3\<rparr>,
      (default_cue ''b'')\<lparr>start_mode := AFTER_CUE, dependency_name := Some ''a'',
         duration_s := 4\<rparr>,
      (default_cue ''c'')\<lparr>start_mode := AFTER_PREVIOUS, duration_s := 1\<rparr>]"

text \<open>
  Three room tabs: a room whose second cue has duration 0 and starts when the first ends,
  a room without cues, and a room with one cue.
\<close>

definition example_tabs :: "(string \<times> MediaCue list) list" where
  "example_tabs =
     [(''Reception'',
        [(default_cue ''intro'')\<lparr>duration_s := 10\<rparr>,
         (default_cue ''blackout'')\<lparr>start_mode := AFTER_PREVIOUS\<rparr>]),
      (''Aljuhfa Path'', []),
      (''Immersive Room'', [(default_cue ''ocean'')\<lparr>duration_s := 5\<rparr>])]"

text \<open>
  The floats that Python reads for \<^verbatim>\<open>0.1\<close>, \<^verbatim>\<open>0.2\<close>, \<^verbatim>\<open>0.3\<close>, \<^verbatim>\<open>0.6\<close> and \<^verbatim>\<open>1.6\<close>, and
  the floats it prints as \<^verbatim>\<open>0.30000000000000004\<close> and \<^verbatim>\<open>0.6000000000000001\<close>.
\<close>

definition d0_1 :: real where "d0_1 = 7205759403792794 / 2 ^ 56"

definition d0_2 :: real where "d0_2 = 7205759403792794 / 2 ^ 55"

definition d0_3 :: real where "d0_3 = 5404319552844595 / 2 ^ 54"

definition d0_6 :: real where "d0_6 = 5404319552844595 / 2 ^ 53"

definition d1_6 :: real where "d1_6 = 7205759403792794 / 2 ^ 52"

definition d0_30000000000000004 :: real where "d0_30000000000000004 = 5404319552844596 / 2 ^ 54"

definition d0_6000000000000001 :: real where "d0_6000000000000001 = 5404319552844596 / 2 ^ 53"

text \<open>
  Three rooms of one cue each, with values that the spin boxes of the cue editor give:
  a cue of 0.1 s, a cue at 0.2 s for 0.3 s, a cue of 1 s.
\<close>

definition rounding_tabs :: "(string \<times> MediaCue list) list" where
  "rounding_tabs =
     [(''A'', [(default_cue ''a'')\<lparr>duration_s := d0_1\<rparr>]),
      (''B'', [(default_cue ''b'')\<lparr>start_time_s := d0_2, duration_s := d0_3\<rparr>]),
      (''C'', [(default_cue ''c'')\<lparr>duration_s := 1\<rparr>])]"

text \<open>
  Two rooms of one cue each, as a show file can hold them: a cue of \<open>2^53\<close> s and a cue
  of 1 s.
\<close>

definition d2_53 :: real where "d2_53 = 2 ^ 53"

definition absorbing_tabs :: "(string \<times> MediaCue list) list" where
  "absorbing_tabs =
     [(''A'', [(default_cue ''a'')\<lparr>duration_s := d2_53\<rparr>]),
      (''B'', [(default_cue ''b'')\<lparr>duration_s := 1\<rparr>])]"

text \<open>
  A string parser that reads no number, for the examples, none of which holds a number
  as a string; and a document whose second cue has a trigger type that is not a display
  string of \<^verbatim>\<open>TriggerType\<close>.
\<close>

definition no_str_to_float :: "string \<Rightarrow> real option" where
  "no_str_to_float s = None"

definition example_document :: pyval where
  "example_document =
     PyDict [(''rooms'', PyList
       [PyDict [(''name'', PyStr ''Reception''),
                (''cues'', PyList
                   [PyDict [(''name'', PyStr ''intro''), (''duration_s'', PyInt 10)],
                    PyDict [(''name'', PyStr ''door''), (''trigger_type'', PyStr ''Motion'')]])]])]"

section \<open>Properties of the schedule\<close>

lemma schedule_step_start:
  "schedule_step_nocursor cues index c start_times =
     start_times @ [cue_start cues start_times index c]"
  "fst (schedule_step cues index c (start_times, current_time)) =
     start_times @ [cue_start cues start_times index c]"
  by (simp_all add: schedule_step_nocursor_def schedule_step_def cue_start_def Let_def
      split: StartMode.splits option.splits)

lemma schedule_loop_drops_cursor:
  "fst (schedule_loop cues index rest (start_times, current_time)) =
     schedule_loop_nocursor cues index rest start_times"
proof (induction rest arbitrary: index start_times current_time)
  case Nil
  show ?case by simp
next
  case (Cons c rest)
  obtain st' ct' where step: "schedule_step cues index c (start_times, current_time) = (st', ct')"
    by (cases "schedule_step cues index c (start_times, current_time)")
  from schedule_step_start(2) [of cues index c start_times current_time] step
  have "st' = schedule_step_nocursor cues index c start_times"
    by (simp add: schedule_step_start(1))
  with Cons.IH [of "Suc index" st' ct'] step show ?case by simp
qed

lemma dep_scan_cong:
  "(\<And>j. j < k \<Longrightarrow> A ! j = B ! j) \<Longrightarrow> (\<And>j. j < k \<Longrightarrow> cs ! j = ds ! j) \<Longrightarrow>
     dep_scan cs A dep k = dep_scan ds B dep k"
  by (induction k) simp_all

lemma cue_start_cong:
  assumes "\<And>j. j < i \<Longrightarrow> A ! j = B ! j" and "\<And>j. j < i \<Longrightarrow> cs ! j = ds ! j"
  shows "cue_start cs A i c = cue_start ds B i c"
proof -
  have "dep_scan cs A dep i = dep_scan ds B dep i" for dep
    using assms by (rule dep_scan_cong)
  moreover have "i \<noteq> 0 \<Longrightarrow> A ! (i - 1) = B ! (i - 1) \<and> cs ! (i - 1) = ds ! (i - 1)"
    using assms by simp
  ultimately show ?thesis
    by (simp add: cue_start_def split: StartMode.splits option.splits)
qed

lemma nocursor_loop_spec:
  assumes "index = length start_times" and "rest = drop index cues" and "index \<le> length cues"
  shows "length (schedule_loop_nocursor cues index rest start_times) = length cues
     \<and> take index (schedule_loop_nocursor cues index rest start_times) = start_times
     \<and> (\<forall>i. index \<le> i \<and> i < length cues \<longrightarrow>
          schedule_loop_nocursor cues index rest start_times ! i =
            cue_start cues (schedule_loop_nocursor cues index rest start_times) i (cues ! i))"
  using assms
proof (induction rest arbitrary: index start_times)
  case Nil
  then show ?case by simp
next
  case (Cons c rest)
  let ?st = "start_times @ [cue_start cues start_times index c]"
  let ?R = "schedule_loop_nocursor cues (Suc index) rest ?st"
  from Cons.prems have lt: "index < length cues"
    by (metis drop_all leI list.distinct(1))
  from Cons.prems lt have c: "c = cues ! index" and rest: "rest = drop (Suc index) cues"
    by (simp_all add: Cons_nth_drop_Suc [symmetric])
  have IH: "length ?R = length cues \<and> take (Suc index) ?R = ?st
     \<and> (\<forall>i. Suc index \<le> i \<and> i < length cues \<longrightarrow> ?R ! i = cue_start cues ?R i (cues ! i))"
    using Cons.IH [of "Suc index" ?st] Cons.prems(1) rest lt by (simp add: schedule_step_start(1))
  then have tk: "take (Suc index) ?R = ?st" by simp
  have agree: "?R ! j = ?st ! j" if "j < Suc index" for j
    using that tk by (metis nth_take)
  have pre: "?R ! j = start_times ! j" if "j < index" for j
    using that agree [of j] Cons.prems(1) by (simp add: nth_append)
  have at: "?R ! index = cue_start cues start_times index c"
    using agree [of index] Cons.prems(1) by simp
  have "cue_start cues start_times index c = cue_start cues ?R index c"
    by (rule cue_start_cong) (simp_all add: pre)
  with at c have here: "?R ! index = cue_start cues ?R index (cues ! index)" by simp
  have "take index ?R = start_times"
  proof -
    have "take index ?R = take index (take (Suc index) ?R)" by (simp add: min_def)
    also have "\<dots> = take index ?st" by (simp only: tk)
    also have "\<dots> = start_times" using Cons.prems(1) by simp
    finally show ?thesis .
  qed
  moreover have "\<forall>i. index \<le> i \<and> i < length cues \<longrightarrow> ?R ! i = cue_start cues ?R i (cues ! i)"
  proof (intro allI impI)
    fix i assume "index \<le> i \<and> i < length cues"
    then consider "i = index" | "Suc index \<le> i \<and> i < length cues" by linarith
    then show "?R ! i = cue_start cues ?R i (cues ! i)"
      using here IH by cases simp_all
  qed
  ultimately show ?case using IH by (simp add: schedule_step_start(1))
qed

lemma compute_schedule_eq_nocursor: "compute_schedule cues = compute_schedule_nocursor cues"
  by (simp add: compute_schedule_def compute_schedule_nocursor_def schedule_loop_drops_cursor)

lemma length_compute_schedule: "length (compute_schedule cues) = length cues"
  using nocursor_loop_spec [of 0 "[]" cues cues]
  by (simp add: compute_schedule_eq_nocursor compute_schedule_nocursor_def)

lemma compute_schedule_nth:
  "i < length cues \<Longrightarrow>
     compute_schedule cues ! i = cue_start cues (compute_schedule cues) i (cues ! i)"
  using nocursor_loop_spec [of 0 "[]" cues cues]
  by (simp add: compute_schedule_eq_nocursor compute_schedule_nocursor_def)


lemma dep_scan_none:
  "(\<And>j. j < k \<Longrightarrow> name (cs ! j) \<noteq> dep) \<Longrightarrow> dep_scan cs A dep k = 0"
  by (induction k) simp_all

lemma dep_scan_nearest:
  "j < k \<Longrightarrow> name (cs ! j) = dep \<Longrightarrow> (\<And>m. j < m \<Longrightarrow> m < k \<Longrightarrow> name (cs ! m) \<noteq> dep) \<Longrightarrow>
     dep_scan cs A dep k = A ! j + max (duration_s (cs ! j)) 0"
proof (induction k)
  case 0
  then show ?case by simp
next
  case (Suc k)
  show ?case
  proof (cases "j = k")
    case True
    with Suc.prems show ?thesis by simp
  next
    case False
    with Suc.prems have "j < k" and "name (cs ! k) \<noteq> dep" by simp_all
    with Suc show ?thesis by simp
  qed
qed

lemma compute_schedule_prefix:
  "take n (compute_schedule cues) = compute_schedule (take n cues)"
proof -
  let ?R = "compute_schedule cues" and ?P = "compute_schedule (take n cues)"
  have len: "length ?P = min n (length cues)"
    by (simp add: length_compute_schedule min.commute)
  have "i < length ?P \<Longrightarrow> ?R ! i = ?P ! i" for i
  proof (induction i rule: less_induct)
    case (less i)
    from less.prems len have i: "i < n" "i < length cues" by simp_all
    have "?R ! i = cue_start cues ?R i (cues ! i)"
      using i by (simp add: compute_schedule_nth)
    also have "\<dots> = cue_start (take n cues) ?P i (cues ! i)"
    proof (rule cue_start_cong)
      fix j assume "j < i"
      with less show "?R ! j = ?P ! j" by simp
      from \<open>j < i\<close> i show "cues ! j = take n cues ! j" by simp
    qed
    also have "\<dots> = ?P ! i"
      using i compute_schedule_nth [of i "take n cues"] by simp
    finally show ?case .
  qed
  then show ?thesis
    using len by (intro nth_equalityI) (simp_all add: length_compute_schedule min.commute)
qed

lemma compute_schedule_example_room: "compute_schedule example_room = [5, 20, 23, 27]"
  by (simp add: compute_schedule_def example_room_def default_cue_def schedule_step_def)

subsection \<open>The three start rules\<close>

text \<open>
  Claim C6. A cue whose start mode is \<^verbatim>\<open>AT_TIME\<close> starts at \<open>max(start_time_s, 0)\<close>: the
  value is read from the cue alone, whatever the other cues of the list are.
\<close>

theorem at_time_start:
  assumes "i < length cues" and "start_mode (cues ! i) = AT_TIME"
  shows "compute_schedule cues ! i = max (start_time_s (cues ! i)) 0"
  using assms by (simp add: compute_schedule_nth cue_start_def)

theorem at_time_start_witness:
  "1 < length example_room \<and> start_mode (example_room ! 1) = AT_TIME
     \<and> compute_schedule example_room ! 1 = 20"
proof -
  have h1: "1 < length example_room" and h2: "start_mode (example_room ! 1) = AT_TIME"
    by (simp_all add: example_room_def default_cue_def)
  have "start_time_s (example_room ! 1) = 20"
    by (simp add: example_room_def default_cue_def)
  with at_time_start [OF h1 h2] h1 h2 show ?thesis by simp
qed

text \<open>
  Claim C5. A cue whose start mode is \<^verbatim>\<open>AFTER_PREVIOUS\<close> starts at 0 when it is the first
  cue, and otherwise at the resolved start of the cue just before it plus that cue's
  duration clamped at 0. The right-hand side does not mention the cursor.
\<close>

theorem after_previous_start:
  assumes "i < length cues" and "start_mode (cues ! i) = AFTER_PREVIOUS"
  shows "compute_schedule cues ! i =
     (if i = 0 then 0
      else compute_schedule cues ! (i - 1) + max (duration_s (cues ! (i - 1))) 0)"
  using assms by (simp add: compute_schedule_nth cue_start_def)

theorem after_previous_start_witness:
  "3 < length example_room \<and> start_mode (example_room ! 3) = AFTER_PREVIOUS
     \<and> compute_schedule example_room ! 3 = 23 + 4"
proof -
  have h1: "3 < length example_room"
    and h2: "start_mode (example_room ! 3) = AFTER_PREVIOUS"
    by (simp_all add: example_room_def default_cue_def)
  have "duration_s (example_room ! 2) = 4"
    by (simp add: example_room_def default_cue_def)
  moreover have "compute_schedule example_room ! 2 = 23"
    by (simp add: compute_schedule_example_room)
  ultimately show ?thesis
    using after_previous_start [OF h1 h2] h1 h2 by simp
qed

text \<open>
  Claim C1. A cue whose start mode is \<^verbatim>\<open>AFTER_CUE\<close> starts at 0 when its dependency name
  is absent or empty, or when no earlier cue has that name. Otherwise it starts at the
  resolved start of the nearest earlier cue with that name (the largest index below \<open>i\<close>
  whose cue has the name) plus that cue's duration clamped at 0. An empty dependency name
  is never searched for, so it gives 0 also when an earlier cue has the empty name.
\<close>

theorem after_cue_start:
  assumes "i < length cues" and "start_mode (cues ! i) = AFTER_CUE"
  shows "compute_schedule cues ! i =
     (case dependency_name (cues ! i) of
        None \<Rightarrow> 0
      | Some d \<Rightarrow>
          if d = [] \<or> {j. j < i \<and> name (cues ! j) = d} = {} then 0
          else compute_schedule cues ! Max {j. j < i \<and> name (cues ! j) = d}
               + max (duration_s (cues ! Max {j. j < i \<and> name (cues ! j) = d})) 0)"
proof (cases "dependency_name (cues ! i)")
  case None
  with assms show ?thesis by (simp add: compute_schedule_nth cue_start_def)
next
  case (Some d)
  let ?M = "{j. j < i \<and> name (cues ! j) = d}"
  have fin: "finite ?M" by simp
  show ?thesis
  proof (cases "d = [] \<or> ?M = {}")
    case True
    then have "d \<noteq> [] \<Longrightarrow> dep_scan cues (compute_schedule cues) d i = 0"
      by (intro dep_scan_none) auto
    with True Some assms show ?thesis
      by (auto simp add: compute_schedule_nth cue_start_def)
  next
    case False
    then have ne: "?M \<noteq> {}" and d: "d \<noteq> []" by simp_all
    define jm where "jm = Max ?M"
    have "jm \<in> ?M" unfolding jm_def using fin ne by (rule Max_in)
    then have m: "jm < i" "name (cues ! jm) = d" by simp_all
    have later: "name (cues ! k) \<noteq> d" if "jm < k" "k < i" for k
    proof
      assume "name (cues ! k) = d"
      with that have "k \<in> ?M" by simp
      with fin have "k \<le> Max ?M" by (rule Max_ge)
      with that(1) show False unfolding jm_def by linarith
    qed
    have scan: "dep_scan cues (compute_schedule cues) d i =
        compute_schedule cues ! jm + max (duration_s (cues ! jm)) 0"
      using m(1) m(2) later by (rule dep_scan_nearest)
    have "compute_schedule cues ! i = dep_scan cues (compute_schedule cues) d i"
      using assms Some d by (simp add: compute_schedule_nth cue_start_def)
    with scan have "compute_schedule cues ! i =
        compute_schedule cues ! jm + max (duration_s (cues ! jm)) 0"
      by (rule trans [rotated])
    with False show ?thesis
      unfolding jm_def Some by (simp only: option.case if_False)
  qed
qed

theorem after_cue_start_witness:
  "2 < length example_room \<and> start_mode (example_room ! 2) = AFTER_CUE
     \<and> dependency_name (example_room ! 2) = Some ''a''
     \<and> name (example_room ! 0) = ''a'' \<and> name (example_room ! 1) = ''a''
     \<and> compute_schedule example_room ! 2 = 20 + 3"
proof -
  have h1: "2 < length example_room" and h2: "start_mode (example_room ! 2) = AFTER_CUE"
    by (simp_all add: example_room_def default_cue_def)
  have dep: "dependency_name (example_room ! 2) = Some ''a''"
    and names: "name (example_room ! 0) = ''a''" "name (example_room ! 1) = ''a''"
    by (simp_all add: example_room_def default_cue_def)
  have M: "{j. j < 2 \<and> name (example_room ! j) = ''a''} = {0, 1}"
    using names by (auto simp add: less_Suc_eq numeral_2_eq_2)
  have Mx: "Max {0, 1::nat} = 1" and ne: "{0, 1::nat} \<noteq> {}" by simp_all
  have "compute_schedule example_room ! 2 =
      compute_schedule example_room ! 1 + max (duration_s (example_room ! 1)) 0"
    using after_cue_start [OF h1 h2]
    by (simp only: dep M Mx ne option.case list.simps if_False simp_thms)
  moreover have "compute_schedule example_room ! 1 = 20"
    by (simp add: compute_schedule_example_room)
  moreover have "duration_s (example_room ! 1) = 3"
    by (simp add: example_room_def default_cue_def)
  ultimately have "compute_schedule example_room ! 2 = 20 + 3" by simp
  with h1 h2 dep names show ?thesis by (intro conjI)
qed

text \<open>
  Claim C10. The cursor does not reach the output: the result is that of the recursion
  without the cursor, it is the same for every initial value of the cursor, and the first
  \<open>n\<close> starts are the schedule of the first \<open>n\<close> cues alone.
\<close>

theorem cursor_is_dead:
  "compute_schedule cues = compute_schedule_nocursor cues
     \<and> (\<forall>c. fst (schedule_loop cues 0 cues ([], c)) = compute_schedule cues)
     \<and> (\<forall>n. take n (compute_schedule cues) = compute_schedule (take n cues))"
proof (intro conjI allI)
  show "compute_schedule cues = compute_schedule_nocursor cues"
    by (rule compute_schedule_eq_nocursor)
next
  fix c
  show "fst (schedule_loop cues 0 cues ([], c)) = compute_schedule cues"
    by (simp only: compute_schedule_def schedule_loop_drops_cursor)
next
  fix n
  show "take n (compute_schedule cues) = compute_schedule (take n cues)"
    by (rule compute_schedule_prefix)
qed

section \<open>Properties of the lane allocation\<close>

subsection \<open>The inner loop and one placement\<close>

lemma first_free_Some:
  "first_free s L k0 = Some k \<Longrightarrow> k0 \<le> k \<and> k - k0 < length L \<and> L ! (k - k0) \<le> s"
proof (induction L arbitrary: k0)
  case Nil
  then show ?case by simp
next
  case (Cons e L)
  show ?case
  proof (cases "e \<le> s")
    case True
    with Cons.prems show ?thesis by simp
  next
    case False
    with Cons.prems have "first_free s L (Suc k0) = Some k" by simp
    from Cons.IH [OF this] have "Suc k0 \<le> k" "k - Suc k0 < length L" "L ! (k - Suc k0) \<le> s"
      by simp_all
    moreover from this have "k - k0 = Suc (k - Suc k0)" by simp
    ultimately show ?thesis by simp
  qed
qed

lemma first_free_None:
  "first_free s L k0 = None \<Longrightarrow> j < length L \<Longrightarrow> s < L ! j"
proof (induction L arbitrary: k0 j)
  case Nil
  then show ?case by simp
next
  case (Cons e L)
  from Cons.prems(1) have e: "\<not> e \<le> s" and rest: "first_free s L (Suc k0) = None"
    by (simp_all split: if_splits)
  show ?case
  proof (cases j)
    case 0
    with e show ?thesis by simp
  next
    case (Suc j')
    with Cons.prems(2) have "j' < length L" by simp
    from Cons.IH [OF rest this] Suc show ?thesis by simp
  qed
qed

lemma lanes_loop_snoc:
  "lanes_loop S E (P @ [x]) st = place (S x) (E x) x (lanes_loop S E P st)"
  by (induction P arbitrary: st) simp_all

lemma place_cases:
  obtains (reuse) k where "k < length L" "L ! k \<le> s" "place s e x (L, A) = (L[k := e], A[x := k])"
  | (fresh) "\<And>j. j < length L \<Longrightarrow> s < L ! j" "place s e x (L, A) = (L @ [e], A[x := length L])"
proof (cases "first_free s L 0")
  case None
  then have "\<And>j. j < length L \<Longrightarrow> s < L ! j" by (rule first_free_None)
  moreover from None have "place s e x (L, A) = (L @ [e], A[x := length L])"
    by (simp add: place_def)
  ultimately show ?thesis by (rule fresh)
next
  case (Some k)
  from first_free_Some [OF this] have "k < length L" "L ! k \<le> s" by simp_all
  moreover from Some have "place s e x (L, A) = (L[k := e], A[x := k])"
    by (simp add: place_def)
  ultimately show ?thesis by (rule reuse)
qed


subsection \<open>The invariant of the outer loop\<close>

lemma lanes_ok_step:
  assumes ok: "lanes_ok S E P L A"
    and x: "x \<notin> P" "x < length A" and P: "\<And>a. a \<in> P \<Longrightarrow> a < length A"
    and pos: "S x \<le> E x"
    and pl: "place (S x) (E x) x (L, A) = (L', A')"
  shows "lanes_ok S E (insert x P) L' A'"
proof -
  from ok have i1: "\<And>a. a \<in> P \<Longrightarrow> A ! a < length L" "\<And>a. a \<in> P \<Longrightarrow> E a \<le> L ! (A ! a)"
    and i2: "\<And>a b. a \<in> P \<Longrightarrow> b \<in> P \<Longrightarrow> a \<noteq> b \<Longrightarrow> A ! a = A ! b \<Longrightarrow> E a \<le> S b \<or> E b \<le> S a"
    and i3: "\<And>k. k < length L \<Longrightarrow> \<exists>y\<in>P. A ! y = k \<and> E y = L ! k"
    by (auto simp add: lanes_ok_def)
  show ?thesis
  proof (cases rule: place_cases [where s = "S x" and e = "E x" and x = x and L = L and A = A])
    case (reuse k)
    with pl have L': "L' = L[k := E x]" and A': "A' = A[x := k]" by simp_all
    have old: "A' ! a = A ! a" if "a \<in> P" for a
    proof -
      from that x(1) have "x \<noteq> a" by blast
      with A' show ?thesis by simp
    qed
    have new: "A' ! x = k" using x A' by simp
    have c1: "A' ! a < length L' \<and> E a \<le> L' ! (A' ! a)" if "a \<in> insert x P" for a
    proof (cases "a = x")
      case True
      with new reuse(1) L' show ?thesis by simp
    next
      case False
      with that have a: "a \<in> P" by simp
      show ?thesis
      proof (cases "A ! a = k")
        case True
        with i1(2) [OF a] reuse(2) pos have "E a \<le> E x" by simp
        with True old [OF a] reuse(1) L' show ?thesis by simp
      next
        case False
        with i1 [OF a] old [OF a] L' show ?thesis by simp
      qed
    qed
    have meet: "E a \<le> S x" if "a \<in> P" "A ! a = k" for a
      using i1(2) [OF that(1)] that(2) reuse(2) by simp
    have c2: "E a \<le> S b \<or> E b \<le> S a"
      if ab: "a \<in> insert x P" "b \<in> insert x P" "a \<noteq> b" "A' ! a = A' ! b" for a b
    proof -
      consider "a \<in> P" "b \<in> P" | "a = x" "b \<in> P" | "a \<in> P" "b = x"
        using ab by auto
      then show ?thesis
      proof cases
        case 1
        with ab old show ?thesis by (simp add: i2)
      next
        case 2
        with ab old new have "A ! b = k" by simp
        with 2 meet show ?thesis by simp
      next
        case 3
        with ab old new have "A ! a = k" by simp
        with 3 meet show ?thesis by simp
      qed
    qed
    have c3: "\<exists>y\<in>insert x P. A' ! y = j \<and> E y = L' ! j" if "j < length L'" for j
    proof (cases "j = k")
      case True
      with new reuse(1) L' show ?thesis by simp
    next
      case False
      from that L' have "j < length L" by simp
      from i3 [OF this] obtain y where "y \<in> P" "A ! y = j" "E y = L ! j" by blast
      with False old L' show ?thesis by auto
    qed
    from c1 c2 c3 show ?thesis unfolding lanes_ok_def by blast
  next
    case fresh
    with pl have L': "L' = L @ [E x]" and A': "A' = A[x := length L]" by simp_all
    have old: "A' ! a = A ! a" if "a \<in> P" for a
    proof -
      from that x(1) have "x \<noteq> a" by blast
      with A' show ?thesis by simp
    qed
    have new: "A' ! x = length L" using x A' by simp
    have c1: "A' ! a < length L' \<and> E a \<le> L' ! (A' ! a)" if "a \<in> insert x P" for a
    proof (cases "a = x")
      case True
      with new L' show ?thesis by simp
    next
      case False
      with that have a: "a \<in> P" by simp
      with i1 [OF a] old [OF a] L' show ?thesis by (simp add: nth_append)
    qed
    have c2: "E a \<le> S b \<or> E b \<le> S a"
      if ab: "a \<in> insert x P" "b \<in> insert x P" "a \<noteq> b" "A' ! a = A' ! b" for a b
    proof -
      consider "a \<in> P" "b \<in> P" | "a = x" "b \<in> P" | "a \<in> P" "b = x"
        using ab by auto
      then show ?thesis
      proof cases
        case 1
        with ab old show ?thesis by (simp add: i2)
      next
        case 2
        with ab old new i1(1) [of b] show ?thesis by simp
      next
        case 3
        with ab old new i1(1) [of a] show ?thesis by simp
      qed
    qed
    have c3: "\<exists>y\<in>insert x P. A' ! y = j \<and> E y = L' ! j" if "j < length L'" for j
    proof (cases "j = length L")
      case True
      with new L' show ?thesis by simp
    next
      case False
      with that L' have "j < length L" by simp
      from i3 [OF this] obtain y where "y \<in> P" "A ! y = j" "E y = L ! j" by blast
      with \<open>j < length L\<close> old L' show ?thesis by (auto simp add: nth_append)
    qed
    from c1 c2 c3 show ?thesis unfolding lanes_ok_def by blast
  qed
qed

lemma place_length:
  "place s e x (L, A) = (L', A') \<Longrightarrow> length A' = length A"
  by (cases rule: place_cases [where s = s and e = e and x = x and L = L and A = A]) auto


lemma lanes_loop_ok:
  assumes "distinct P" and "\<forall>a\<in>set P. a < n" and "length A0 = n"
    and "\<forall>a\<in>set P. S a \<le> E a"
  shows "lanes_ok S E (set P) (fst (lanes_loop S E P ([], A0))) (snd (lanes_loop S E P ([], A0)))
     \<and> length (snd (lanes_loop S E P ([], A0))) = n"
  using assms
proof (induction P rule: rev_induct)
  case Nil
  then show ?case by (simp add: lanes_ok_def)
next
  case (snoc x P)
  obtain L A where LA: "lanes_loop S E P ([], A0) = (L, A)" by (cases "lanes_loop S E P ([], A0)")
  obtain L' A' where pl: "place (S x) (E x) x (L, A) = (L', A')"
    by (cases "place (S x) (E x) x (L, A)")
  from snoc.IH snoc.prems LA have ok: "lanes_ok S E (set P) L A" and len: "length A = n"
    by simp_all
  from snoc.prems have x: "x \<notin> set P" "x < length A" "S x \<le> E x"
    and P: "\<And>a. a \<in> set P \<Longrightarrow> a < length A"
    using len by simp_all
  from lanes_ok_step [OF ok x(1) x(2) P x(3) pl]
  have "lanes_ok S E (set (P @ [x])) L' A'" by simp
  moreover from place_length [OF pl] len have "length A' = n" by simp
  ultimately show ?case by (simp add: lanes_loop_snoc LA pl)
qed

lemma lanes_loop_length:
  "length (snd (lanes_loop S E P st)) = length (snd st)"
proof (induction P arbitrary: st)
  case Nil
  show ?case by simp
next
  case (Cons x P)
  obtain L A where st: "st = (L, A)" by (cases st)
  obtain L' A' where pl: "place (S x) (E x) x (L, A) = (L', A')"
    by (cases "place (S x) (E x) x (L, A)")
  from place_length [OF pl] Cons.IH [of "(L', A')"] show ?case by (simp add: st pl)
qed

lemma greedy_lanes_length: "length (greedy_lanes S E n) = n"
  by (simp add: greedy_lanes_def lanes_loop_length)

lemma greedy_lanes_ok:
  assumes "0 < n" and "\<forall>a<n. S a \<le> E a"
  shows "\<exists>L. lanes_ok S E {..<n} L (greedy_lanes S E n)"
proof -
  let ?P = "sort_key S [0..<n]"
  have "distinct ?P" and set: "set ?P = {..<n}" by auto
  with lanes_loop_ok [of ?P n "replicate n 0" S E] assms(2)
  have "lanes_ok S E {..<n} (fst (lanes_loop S E ?P ([], replicate n 0)))
          (snd (lanes_loop S E ?P ([], replicate n 0)))"
    by simp
  with assms(1) show ?thesis
    by (auto simp add: greedy_lanes_def)
qed

lemma greedy_lanes_disjoint:
  assumes "\<forall>a<n. S a \<le> E a"
    and "a < n" "b < n" "a \<noteq> b" "greedy_lanes S E n ! a = greedy_lanes S E n ! b"
  shows "\<not> (S a < E b \<and> S b < E a)"
proof -
  from assms(2) have "0 < n" by simp
  from greedy_lanes_ok [OF this assms(1)] obtain L
    where "lanes_ok S E {..<n} L (greedy_lanes S E n)" by blast
  with assms(2-5) have "E a \<le> S b \<or> E b \<le> S a"
    unfolding lanes_ok_def by (metis lessThan_iff)
  then show ?thesis by auto
qed


subsection \<open>Counting lanes\<close>

lemma lanes_ok_num_lanes:
  assumes ok: "lanes_ok S E {..<n} L A" and len: "length A = n" and n: "0 < n"
  shows "num_lanes A = length L"
proof -
  from ok have i1: "\<And>a. a < n \<Longrightarrow> A ! a < length L"
    and i3: "\<And>k. k < length L \<Longrightarrow> \<exists>y<n. A ! y = k"
    by (auto simp add: lanes_ok_def)
  from len n have ne: "A \<noteq> []" by auto
  from i1 [OF n] have L: "0 < length L" by (cases L) simp_all
  have up: "v < length L" if "v \<in> set A" for v
    using that i1 len by (auto simp add: in_set_conv_nth)
  from i3 [of "length L - 1"] L obtain y where "y < n" "A ! y = length L - 1" by auto
  with len have top: "length L - 1 \<in> set A" by (metis nth_mem)
  have "Max (set A) = length L - 1"
  proof (rule Max_eqI)
    show "finite (set A)" by simp
    show "length L - 1 \<in> set A" by (rule top)
    fix v assume "v \<in> set A"
    from up [OF this] show "v \<le> length L - 1" by simp
  qed
  with ne L show ?thesis by (simp add: num_lanes_def)
qed

lemma lanes_ok_overlap_le:
  assumes ok: "lanes_ok S E {..<n} L A"
  shows "overlap_at S E n t \<le> length L"
proof -
  let ?T = "{i. i < n \<and> S i \<le> t \<and> t < E i}"
  from ok have i1: "\<And>a. a < n \<Longrightarrow> A ! a < length L"
    and i2: "\<And>a b. a < n \<Longrightarrow> b < n \<Longrightarrow> a \<noteq> b \<Longrightarrow> A ! a = A ! b \<Longrightarrow> E a \<le> S b \<or> E b \<le> S a"
    by (auto simp add: lanes_ok_def)
  have inj: "inj_on ((!) A) ?T"
  proof (rule inj_onI)
    fix a b assume a: "a \<in> ?T" and b: "b \<in> ?T" and eq: "A ! a = A ! b"
    show "a = b"
    proof (rule ccontr)
      assume "a \<noteq> b"
      with a b eq i2 [of a b] have "E a \<le> S b \<or> E b \<le> S a" by simp
      with a b show False by auto
    qed
  qed
  have "(!) A ` ?T \<subseteq> {..<length L}" using i1 by auto
  then have "card ((!) A ` ?T) \<le> card {..<length L}" by (intro card_mono) simp_all
  with inj show ?thesis by (simp add: overlap_at_def card_image)
qed


lemma lanes_loop_peak:
  assumes "distinct P" and "sorted (map S P)" and "\<forall>a\<in>set P. a < n"
    and "length A0 = n" and "\<forall>a\<in>set P. S a < E a"
  shows "fst (lanes_loop S E P ([], A0)) \<noteq> [] \<longrightarrow>
     (\<exists>x\<in>set P. length (fst (lanes_loop S E P ([], A0)))
        \<le> card {y. y \<in> set P \<and> S y \<le> S x \<and> S x < E y})"
  using assms
proof (induction P rule: rev_induct)
  case Nil
  then show ?case by simp
next
  case (snoc x P)
  obtain L A where LA: "lanes_loop S E P ([], A0) = (L, A)" by (cases "lanes_loop S E P ([], A0)")
  from snoc.prems have dP: "distinct P" and xP: "x \<notin> set P"
    and sP: "sorted (map S P)" and before: "\<And>y. y \<in> set P \<Longrightarrow> S y \<le> S x"
    and bnd: "\<forall>a\<in>set P. a < n" and pos: "\<forall>a\<in>set P. S a < E a"
    and posx: "S x < E x"
    by (simp_all add: sorted_append)
  have le: "\<forall>a\<in>set P. S a \<le> E a" using pos by (simp add: less_imp_le)
  from lanes_loop_ok [OF dP bnd \<open>length A0 = n\<close> le] LA
  have ok: "lanes_ok S E (set P) L A" by simp
  from snoc.IH [OF dP sP bnd \<open>length A0 = n\<close> pos] LA
  have IH: "L \<noteq> [] \<Longrightarrow> \<exists>z\<in>set P. length L \<le> card {y. y \<in> set P \<and> S y \<le> S z \<and> S z < E y}"
    by simp
  show ?case
  proof (cases rule: place_cases [where s = "S x" and e = "E x" and x = x and L = L and A = A])
    case (reuse k)
    then have "L \<noteq> []" by auto
    from IH [OF this] obtain z where z: "z \<in> set P"
      and c: "length L \<le> card {y. y \<in> set P \<and> S y \<le> S z \<and> S z < E y}" by blast
    have "card {y. y \<in> set P \<and> S y \<le> S z \<and> S z < E y}
        \<le> card {y. y \<in> set (P @ [x]) \<and> S y \<le> S z \<and> S z < E y}"
      by (rule card_mono) auto
    with c z reuse(3) show ?thesis
      by (auto simp add: lanes_loop_snoc LA intro!: bexI [of _ z])
  next
    case fresh
    let ?U = "{y. y \<in> set P \<and> S y \<le> S x \<and> S x < E y}"
    let ?T = "{y. y \<in> set (P @ [x]) \<and> S y \<le> S x \<and> S x < E y}"
    from ok have i3: "\<And>k. k < length L \<Longrightarrow> \<exists>y\<in>set P. A ! y = k \<and> E y = L ! k"
      by (simp add: lanes_ok_def)
    have "{..<length L} \<subseteq> (!) A ` ?U"
    proof
      fix k assume "k \<in> {..<length L}"
      then have k: "k < length L" by simp
      from i3 [OF k] obtain y where y: "y \<in> set P" "A ! y = k" "E y = L ! k" by blast
      from fresh(1) [OF k] y(3) have "S x < E y" by simp
      with y(1) before [OF y(1)] have "y \<in> ?U" by simp
      with y(2) show "k \<in> (!) A ` ?U" by blast
    qed
    then have "card {..<length L} \<le> card ((!) A ` ?U)" by (intro card_mono) simp_all
    also have "\<dots> \<le> card ?U" by (intro card_image_le) simp
    finally have c0: "length L \<le> card ?U" by simp
    have "?T = insert x ?U" using posx by auto
    moreover have "x \<notin> ?U" using xP by blast
    ultimately have "card ?T = Suc (card ?U)" by simp
    with c0 have "length (L @ [E x]) \<le> card ?T" by simp
    with fresh(2) show ?thesis
      by (auto simp add: lanes_loop_snoc LA intro!: bexI [of _ x])
  qed
qed

lemma greedy_lanes_peak:
  assumes n: "0 < n" and pos: "\<forall>a<n. S a < E a"
  shows "\<exists>x<n. num_lanes (greedy_lanes S E n) \<le> overlap_at S E n (S x)"
proof -
  let ?P = "sort_key S [0..<n]"
  let ?R = "lanes_loop S E ?P ([], replicate n 0)"
  have d: "distinct ?P" and set: "set ?P = {..<n}" and srt: "sorted (map S ?P)"
    by auto
  from pos have le: "\<forall>a<n. S a \<le> E a" by (simp add: less_imp_le)
  have ok: "lanes_ok S E {..<n} (fst ?R) (snd ?R)"
    using lanes_loop_ok [of ?P n "replicate n 0" S E] d set le by simp
  have g: "greedy_lanes S E n = snd ?R" using n by (simp add: greedy_lanes_def)
  from lanes_ok_num_lanes [OF ok _ n] have nl: "num_lanes (snd ?R) = length (fst ?R)"
    by (simp add: lanes_loop_length)
  have "snd ?R \<noteq> []" using n lanes_loop_length [of S E ?P "([], replicate n 0)"] by auto
  then have "0 < num_lanes (snd ?R)" by (simp add: num_lanes_def)
  with nl have "fst ?R \<noteq> []" by auto
  with lanes_loop_peak [of ?P S n "replicate n 0" E] d srt set pos
  obtain x where "x \<in> set ?P"
    and "length (fst ?R) \<le> card {y. y \<in> set ?P \<and> S y \<le> S x \<and> S x < E y}"
    by auto
  with set nl g show ?thesis by (auto simp add: overlap_at_def)
qed

lemma greedy_lanes_overlap_le:
  assumes "\<forall>a<n. S a \<le> E a"
  shows "overlap_at S E n t \<le> num_lanes (greedy_lanes S E n)"
proof (cases "n = 0")
  case True
  then show ?thesis by (simp add: overlap_at_def)
next
  case False
  then have n: "0 < n" by simp
  from greedy_lanes_ok [OF n assms] obtain L
    where ok: "lanes_ok S E {..<n} L (greedy_lanes S E n)" by blast
  from lanes_ok_num_lanes [OF ok greedy_lanes_length n] lanes_ok_overlap_le [OF ok]
  show ?thesis by simp
qed


subsection \<open>The three copies of the allocator agree\<close>

lemma insort_key_agree:
  "f x = g x \<Longrightarrow> \<forall>y\<in>set ys. f y = g y \<Longrightarrow> insort_key f x ys = insort_key g x ys"
  by (induction ys) simp_all

lemma sort_key_agree:
  "\<forall>y\<in>set xs. f y = g y \<Longrightarrow> sort_key f xs = sort_key g xs"
proof (induction xs)
  case Nil
  show ?case by simp
next
  case (Cons x xs)
  then have "sort_key f xs = sort_key g xs" by simp
  moreover from Cons.prems have "insort_key f x (sort_key g xs) = insort_key g x (sort_key g xs)"
    by (intro insort_key_agree) simp_all
  ultimately show ?case by (simp add: sort_key_simps)
qed

lemma lanes_loop_agree:
  "\<forall>i\<in>set P. S i = S' i \<and> E i = E' i \<Longrightarrow> lanes_loop S E P st = lanes_loop S' E' P st"
  by (induction P arbitrary: st) simp_all

lemma greedy_lanes_agree:
  assumes "\<forall>i<n. S i = S' i \<and> E i = E' i"
  shows "greedy_lanes S E n = greedy_lanes S' E' n"
proof -
  from assms have "sort_key S [0..<n] = sort_key S' [0..<n]"
    by (intro sort_key_agree) simp
  moreover from assms have "lanes_loop S E (sort_key S' [0..<n]) st = lanes_loop S' E' (sort_key S' [0..<n]) st" for st
    by (intro lanes_loop_agree) simp
  ultimately show ?thesis by (simp add: greedy_lanes_def)
qed

lemma TimelineView_compute_lanes_eq:
  assumes "length start_times = length cues"
  shows "TimelineView_compute_lanes cues start_times =
     compute_lanes (cue_intervals (zip start_times cues))"
  unfolding TimelineView_compute_lanes_def compute_lanes_def cue_intervals_def
  using assms by (simp, intro greedy_lanes_agree) simp

lemma GlobalTimelineView_compute_lanes_eq:
  "GlobalTimelineView_compute_lanes items = compute_lanes (item_intervals items)"
  unfolding GlobalTimelineView_compute_lanes_def compute_lanes_def item_intervals_def
  by (simp, intro greedy_lanes_agree) simp

subsection \<open>Intervals in flight\<close>

lemma in_flight_overlap_at:
  "in_flight ivs t = overlap_at (\<lambda>i. fst (ivs ! i)) (\<lambda>i. snd (ivs ! i)) (length ivs) t"
  by (simp add: in_flight_def overlap_at_def length_filter_conv_card split_beta)

lemma in_flight_start_le_max_overlap:
  assumes "i < length ivs"
  shows "in_flight ivs (fst (ivs ! i)) \<le> max_overlap ivs"
proof -
  from assms have ne: "ivs \<noteq> []" by auto
  have "ivs ! i \<in> set ivs" using assms by simp
  then have "in_flight ivs (fst (ivs ! i)) \<in> set (map (\<lambda>(start, end). in_flight ivs start) ivs)"
    by (auto simp add: split_beta image_iff intro!: bexI [of _ "ivs ! i"])
  then show ?thesis using ne by (simp add: max_overlap_def)
qed


lemma in_flight_le_max_overlap: "in_flight ivs t \<le> max_overlap ivs"
proof -
  let ?S = "\<lambda>i. fst (ivs ! i)" and ?E = "\<lambda>i. snd (ivs ! i)"
  let ?T = "{i. i < length ivs \<and> ?S i \<le> t \<and> t < ?E i}"
  show ?thesis
  proof (cases "?T = {}")
    case True
    then have "in_flight ivs t = 0"
      by (simp add: in_flight_overlap_at overlap_at_def)
    then show ?thesis by simp
  next
    case False
    have fin: "finite ?T" by simp
    then have "Max (?S ` ?T) \<in> ?S ` ?T" using False by (intro Max_in) simp_all
    then obtain m where m: "m \<in> ?T" and mx: "?S m = Max (?S ` ?T)" by auto
    have top: "?S i \<le> ?S m" if "i \<in> ?T" for i
      unfolding mx using fin that by (intro Max_ge) simp_all
    have "?T \<subseteq> {i. i < length ivs \<and> ?S i \<le> ?S m \<and> ?S m < ?E i}"
    proof
      fix i assume i: "i \<in> ?T"
      from top [OF i] i m show "i \<in> {i. i < length ivs \<and> ?S i \<le> ?S m \<and> ?S m < ?E i}"
        by auto
    qed
    then have "card ?T \<le> card {i. i < length ivs \<and> ?S i \<le> ?S m \<and> ?S m < ?E i}"
      by (intro card_mono) simp_all
    then have "in_flight ivs t \<le> in_flight ivs (?S m)"
      by (simp add: in_flight_overlap_at overlap_at_def)
    also from m have "\<dots> \<le> max_overlap ivs"
      by (intro in_flight_start_le_max_overlap) simp
    finally show ?thesis .
  qed
qed

subsection \<open>Example allocations\<close>

lemma compute_lanes_scenario_C: "compute_lanes [(0, 10), (0, 5)] = [0, 1]"
  by (simp add: compute_lanes_def greedy_lanes_def place_def upt_rec [of 0] upt_rec [of 1]
      upt_rec [of 2])

lemma compute_lanes_zero_length: "compute_lanes [(5, 10), (5, 5)] = [0, 1]"
  by (simp add: compute_lanes_def greedy_lanes_def place_def upt_rec [of 0] upt_rec [of 1]
      upt_rec [of 2])

lemma compute_lanes_zero_length_first: "compute_lanes [(5, 5), (5, 10)] = [0, 0]"
  by (simp add: compute_lanes_def greedy_lanes_def place_def upt_rec [of 0] upt_rec [of 1]
      upt_rec [of 2])


lemma compute_lanes_touching: "compute_lanes [(0, 10), (10, 15), (3, 4)] = [0, 0, 1]"
  by (simp add: compute_lanes_def greedy_lanes_def place_def upt_rec [of 0] upt_rec [of 1]
      upt_rec [of 2] upt_rec [of 3])

subsection \<open>No two overlapping intervals share a lane\<close>

text \<open>
  Claim C2. Let every interval of the list be \<open>(start, end)\<close> with
  \<open>end = start + max(duration, 0)\<close> for some duration. Two distinct inputs to which
  \<^verbatim>\<open>compute_lanes\<close> gives the same lane do not overlap: it is not the case that each
  starts before the other ends. By \<open>TimelineView_compute_lanes_eq\<close> and
  \<open>GlobalTimelineView_compute_lanes_eq\<close> the two \<^verbatim>\<open>_compute_lanes\<close> methods are
  \<^verbatim>\<open>compute_lanes\<close> on intervals of this form.
\<close>

theorem compute_lanes_no_overlap:
  assumes "\<forall>(start, end)\<in>set intervals. \<exists>duration. end = start + max duration 0"
    and "a < length intervals" and "b < length intervals" and "a \<noteq> b"
    and "compute_lanes intervals ! a = compute_lanes intervals ! b"
  shows "\<not> overlaps (intervals ! a) (intervals ! b)"
proof -
  have "\<forall>i<length intervals. fst (intervals ! i) \<le> snd (intervals ! i)"
  proof (intro allI impI)
    fix i assume "i < length intervals"
    then have "intervals ! i \<in> set intervals" by simp
    with assms(1) obtain d where "snd (intervals ! i) = fst (intervals ! i) + max d 0"
      by (auto simp add: split_beta)
    then show "fst (intervals ! i) \<le> snd (intervals ! i)" by simp
  qed
  from greedy_lanes_disjoint [OF this assms(2-4)] assms(5)
  show ?thesis by (simp add: compute_lanes_def overlaps_def)
qed

theorem compute_lanes_no_overlap_witness:
  "compute_lanes [(0, 10), (10, 15), (3, 4)] ! 0 = compute_lanes [(0, 10), (10, 15), (3, 4)] ! 1
     \<and> \<not> overlaps ([(0, 10), (10, 15), (3, 4)] ! 0) ([(0, 10), (10, 15), (3, 4)] ! 1)"
proof -
  let ?ivs = "[(0, 10), (10, 15), (3, 4)] :: (real \<times> real) list"
  have h1: "\<forall>(start, end)\<in>set ?ivs. \<exists>duration. end = start + max duration 0"
  proof -
    have e1: "\<exists>d::real. max d 0 = 10" by (rule exI [of _ 10]) simp
    have e2: "\<exists>d::real. max d 0 = 5" by (rule exI [of _ 5]) simp
    have e3: "\<exists>d::real. max d 0 = 1" by (rule exI [of _ 1]) simp
    from e1 e2 e3 show ?thesis by simp
  qed
  have h2: "0 < length ?ivs" and h3: "1 < length ?ivs" and h4: "(0::nat) \<noteq> 1" by simp_all
  have h5: "compute_lanes ?ivs ! 0 = compute_lanes ?ivs ! 1"
    by (simp add: compute_lanes_touching)
  from compute_lanes_no_overlap [OF h1 h2 h3 h4 h5] h5 show ?thesis by blast
qed

subsection \<open>The number of lanes\<close>

lemma nth_less_num_lanes: "a < length lanes \<Longrightarrow> lanes ! a < num_lanes lanes"
proof -
  assume a: "a < length lanes"
  then have "lanes ! a \<in> set lanes" by simp
  then have le: "lanes ! a \<le> Max (set lanes)" by (intro Max_ge) simp_all
  from a have "lanes \<noteq> []" by auto
  then have "num_lanes lanes = Suc (Max (set lanes))" by (simp add: num_lanes_def)
  with le show ?thesis by (simp only: less_Suc_eq_le)
qed

lemma compute_lanes_clique_le:
  assumes le: "\<forall>i<length intervals. fst (intervals ! i) \<le> snd (intervals ! i)"
    and C: "C \<subseteq> {..<length intervals}"
    and pw: "\<forall>a\<in>C. \<forall>b\<in>C. a \<noteq> b \<longrightarrow> overlaps (intervals ! a) (intervals ! b)"
  shows "card C \<le> num_lanes (compute_lanes intervals)"
proof -
  let ?A = "compute_lanes intervals"
  have len: "length ?A = length intervals"
    by (simp add: compute_lanes_def greedy_lanes_length)
  have inj: "inj_on ((!) ?A) C"
  proof (rule inj_onI)
    fix a b assume a: "a \<in> C" and b: "b \<in> C" and eq: "?A ! a = ?A ! b"
    show "a = b"
    proof (rule ccontr)
      assume ne: "a \<noteq> b"
      from a b C have "a < length intervals" "b < length intervals" by auto
      from greedy_lanes_disjoint [OF le this ne] eq
      have "\<not> overlaps (intervals ! a) (intervals ! b)"
        by (simp add: compute_lanes_def overlaps_def)
      with pw a b ne show False by blast
    qed
  qed
  have "(!) ?A ` C \<subseteq> {..<num_lanes ?A}"
    using C len nth_less_num_lanes [of _ ?A] by auto
  then have "card ((!) ?A ` C) \<le> card {..<num_lanes ?A}" by (intro card_mono) simp_all
  with inj show ?thesis by (simp add: card_image)
qed


lemma compute_lanes_clique_peak:
  assumes "intervals \<noteq> []" and "\<forall>(start, end)\<in>set intervals. start < end"
  shows "\<exists>C. C \<subseteq> {..<length intervals}
     \<and> (\<forall>a\<in>C. \<forall>b\<in>C. a \<noteq> b \<longrightarrow> overlaps (intervals ! a) (intervals ! b))
     \<and> card C = num_lanes (compute_lanes intervals)"
proof -
  let ?S = "\<lambda>i. fst (intervals ! i)" and ?E = "\<lambda>i. snd (intervals ! i)"
  let ?n = "length intervals"
  from assms(1) have n: "0 < ?n" by simp
  have pos: "\<forall>i<?n. ?S i < ?E i"
  proof (intro allI impI)
    fix i assume "i < ?n"
    then have "intervals ! i \<in> set intervals" by simp
    with assms(2) show "?S i < ?E i" by (auto simp add: split_beta)
  qed
  then have le: "\<forall>i<?n. ?S i \<le> ?E i" by (simp add: less_imp_le)
  from greedy_lanes_peak [OF n pos] obtain x where x: "x < ?n"
    and peak: "num_lanes (compute_lanes intervals) \<le> overlap_at ?S ?E ?n (?S x)"
    by (auto simp add: compute_lanes_def)
  from greedy_lanes_overlap_le [OF le, of "?S x"] peak
  have eq: "overlap_at ?S ?E ?n (?S x) = num_lanes (compute_lanes intervals)"
    by (simp add: compute_lanes_def)
  let ?C = "{i. i < ?n \<and> ?S i \<le> ?S x \<and> ?S x < ?E i}"
  have "?C \<subseteq> {..<?n}" by auto
  moreover have "\<forall>a\<in>?C. \<forall>b\<in>?C. a \<noteq> b \<longrightarrow> overlaps (intervals ! a) (intervals ! b)"
    by (auto simp add: overlaps_def)
  moreover from eq have "card ?C = num_lanes (compute_lanes intervals)"
    by (simp add: overlap_at_def)
  ultimately show ?thesis by blast
qed

lemma compute_lanes_count_instants:
  assumes "\<forall>(start, end)\<in>set intervals. start < end"
  shows "num_lanes (compute_lanes intervals) = max_overlap intervals
     \<and> (\<forall>t. in_flight intervals t \<le> num_lanes (compute_lanes intervals))
     \<and> (\<exists>t. in_flight intervals t = num_lanes (compute_lanes intervals))"
proof (cases "intervals = []")
  case True
  then show ?thesis
    by (simp add: compute_lanes_def greedy_lanes_def num_lanes_def max_overlap_def in_flight_def)
next
  case False
  let ?S = "\<lambda>i. fst (intervals ! i)" and ?E = "\<lambda>i. snd (intervals ! i)"
  let ?n = "length intervals"
  from False have n: "0 < ?n" by simp
  have pos: "\<forall>i<?n. ?S i < ?E i"
  proof (intro allI impI)
    fix i assume "i < ?n"
    then have "intervals ! i \<in> set intervals" by simp
    with assms show "?S i < ?E i" by (auto simp add: split_beta)
  qed
  then have le: "\<forall>i<?n. ?S i \<le> ?E i" by (simp add: less_imp_le)
  have upper: "in_flight intervals t \<le> num_lanes (compute_lanes intervals)" for t
    using greedy_lanes_overlap_le [OF le] by (simp add: in_flight_overlap_at compute_lanes_def)
  from greedy_lanes_peak [OF n pos] obtain x where x: "x < ?n"
    and peak: "num_lanes (compute_lanes intervals) \<le> in_flight intervals (?S x)"
    by (auto simp add: in_flight_overlap_at compute_lanes_def)
  from peak upper [of "?S x"]
  have eq: "in_flight intervals (?S x) = num_lanes (compute_lanes intervals)" by simp
  have "num_lanes (compute_lanes intervals) \<le> max_overlap intervals"
    using eq in_flight_le_max_overlap [of intervals "?S x"] by simp
  moreover have "max_overlap intervals \<le> num_lanes (compute_lanes intervals)"
  proof -
    from False have "max_overlap intervals \<in> set (map (\<lambda>(start, end). in_flight intervals start) intervals)"
      unfolding max_overlap_def by (simp del: set_map)
    then obtain t where "max_overlap intervals = in_flight intervals t"
      by (auto simp add: split_beta)
    with upper show ?thesis by simp
  qed
  ultimately show ?thesis using upper eq by auto
qed

text \<open>
  Claim C3, amended. When every interval has positive length (\<open>start < end\<close>), the
  number of lanes that \<^verbatim>\<open>compute_lanes\<close> uses is the largest number of intervals in flight
  at one instant: no instant has more intervals in flight than there are lanes, and some
  instant has exactly that many. It is also the clique number of the interval graph: no
  set of pairwise overlapping intervals has more members than there are lanes, and some
  such set has exactly that many.
\<close>

theorem compute_lanes_count:
  assumes "\<forall>(start, end)\<in>set intervals. start < end"
  shows "num_lanes (compute_lanes intervals) = max_overlap intervals
     \<and> (\<forall>t. in_flight intervals t \<le> num_lanes (compute_lanes intervals))
     \<and> (\<exists>t. in_flight intervals t = num_lanes (compute_lanes intervals))
     \<and> (\<forall>C. C \<subseteq> {..<length intervals}
            \<and> (\<forall>a\<in>C. \<forall>b\<in>C. a \<noteq> b \<longrightarrow> overlaps (intervals ! a) (intervals ! b))
          \<longrightarrow> card C \<le> num_lanes (compute_lanes intervals))
     \<and> (\<exists>C. C \<subseteq> {..<length intervals}
            \<and> (\<forall>a\<in>C. \<forall>b\<in>C. a \<noteq> b \<longrightarrow> overlaps (intervals ! a) (intervals ! b))
            \<and> card C = num_lanes (compute_lanes intervals))"
proof -
  have le: "\<forall>i<length intervals. fst (intervals ! i) \<le> snd (intervals ! i)"
  proof (intro allI impI)
    fix i assume "i < length intervals"
    then have "intervals ! i \<in> set intervals" by simp
    with assms have "fst (intervals ! i) < snd (intervals ! i)" by (auto simp add: split_beta)
    then show "fst (intervals ! i) \<le> snd (intervals ! i)" by simp
  qed
  have clique: "\<exists>C. C \<subseteq> {..<length intervals}
      \<and> (\<forall>a\<in>C. \<forall>b\<in>C. a \<noteq> b \<longrightarrow> overlaps (intervals ! a) (intervals ! b))
      \<and> card C = num_lanes (compute_lanes intervals)"
  proof (cases "intervals = []")
    case True
    then have "card ({}::nat set) = num_lanes (compute_lanes intervals)"
      by (simp add: compute_lanes_def greedy_lanes_def num_lanes_def)
    then show ?thesis by blast
  next
    case False
    then show ?thesis using assms by (rule compute_lanes_clique_peak)
  qed
  from compute_lanes_count_instants [OF assms] compute_lanes_clique_le [OF le] clique
  show ?thesis by blast
qed

theorem compute_lanes_count_witness:
  "(0::real) < 10 \<and> (0::real) < 5
     \<and> num_lanes (compute_lanes [(0, 10), (0, 5)]) = max_overlap [(0, 10), (0, 5)]
     \<and> max_overlap [(0, 10), (0, 5)] = 2"
proof -
  have h: "\<forall>(start, end)\<in>set [(0, 10), (0, 5) :: real \<times> real]. start < end" by simp
  have "max_overlap [(0, 10), (0, 5)] = 2"
    by (simp add: max_overlap_def in_flight_def)
  with compute_lanes_count [OF h] show ?thesis by simp
qed

text \<open>
  Without the restriction to positive lengths the count can exceed the overlap. For the
  intervals \<open>(5, 10)\<close> and \<open>(5, 5)\<close> the allocator opens two lanes, since the second
  starts before the first lane's end time 10; but the two do not overlap and no instant
  has more than one of them in flight. With the inputs in the other order it uses one
  lane (\<open>compute_lanes_zero_length_first\<close>), so no count that ignores the order of the input
  equals the number of lanes on both.
\<close>

theorem compute_lanes_count_counterexample:
  "num_lanes (compute_lanes [(5, 10), (5, 5)]) = 2
     \<and> max_overlap [(5, 10), (5, 5)] = 1
     \<and> \<not> overlaps (5, 10) (5, 5)"
  by (simp add: compute_lanes_zero_length num_lanes_def max_overlap_def in_flight_def
      overlaps_def)

section \<open>Properties of double-precision addition\<close>

subsection \<open>Rounding a significand\<close>

lemma round_even_lower: "\<lfloor>q\<rfloor> \<le> round_even q"
  by (simp add: round_even_def Let_def)

lemma round_even_upper: "round_even q \<le> \<lfloor>q\<rfloor> + 1"
  by (simp add: round_even_def Let_def)

lemma round_even_of_int [simp]: "round_even (of_int n) = n"
  by (simp add: round_even_def Let_def)

lemma round_even_ge: "of_int n \<le> q \<Longrightarrow> n \<le> round_even q"
proof -
  assume "of_int n \<le> q"
  then have "n \<le> \<lfloor>q\<rfloor>" by (simp add: le_floor_iff)
  with round_even_lower [of q] show ?thesis by simp
qed

lemma round_even_le: "q \<le> of_int n \<Longrightarrow> round_even q \<le> n"
proof (cases "q = of_int n")
  case True
  then show ?thesis by simp
next
  case False
  assume "q \<le> of_int n"
  with False have "q < of_int n" by simp
  then have "\<lfloor>q\<rfloor> < n" by (simp add: floor_less_iff)
  with round_even_upper [of q] show ?thesis by simp
qed

lemma round_even_mono: "q \<le> q' \<Longrightarrow> round_even q \<le> round_even q'"
proof -
  assume le: "q \<le> q'"
  then have fl: "\<lfloor>q\<rfloor> \<le> \<lfloor>q'\<rfloor>" by (rule floor_mono)
  show ?thesis
  proof (cases "\<lfloor>q\<rfloor> = \<lfloor>q'\<rfloor>")
    case True
    with le have "q - of_int \<lfloor>q\<rfloor> \<le> q' - of_int \<lfloor>q'\<rfloor>" by simp
    with True show ?thesis by (auto simp add: round_even_def Let_def)
  next
    case False
    with fl have "\<lfloor>q\<rfloor> + 1 \<le> \<lfloor>q'\<rfloor>" by simp
    with round_even_upper [of q] round_even_lower [of q'] show ?thesis by simp
  qed
qed

subsection \<open>Rounding in a binade\<close>

lemma binade:
  assumes "0 < x"
  shows "2 powr of_int \<lfloor>log 2 x\<rfloor> \<le> x" and "x < 2 powr (of_int \<lfloor>log 2 x\<rfloor> + 1)"
proof -
  have "of_int \<lfloor>log 2 x\<rfloor> \<le> log 2 x" by simp
  then have "2 powr of_int \<lfloor>log 2 x\<rfloor> \<le> 2 powr log 2 x" by (simp only: powr_le_cancel_iff)
  with assms show "2 powr of_int \<lfloor>log 2 x\<rfloor> \<le> x" by simp
  have "log 2 x < of_int \<lfloor>log 2 x\<rfloor> + 1" by linarith
  then have "2 powr log 2 x < 2 powr (of_int \<lfloor>log 2 x\<rfloor> + 1)" by (simp only: powr_less_cancel_iff)
  with assms show "x < 2 powr (of_int \<lfloor>log 2 x\<rfloor> + 1)" by simp
qed

lemma floor_log_unique:
  assumes "0 < x" and "2 powr of_int k \<le> x" and "x < 2 powr (of_int k + 1)"
  shows "\<lfloor>log 2 x\<rfloor> = k"
proof (rule floor_unique)
  from assms(1,2) show "of_int k \<le> log 2 x" by (simp add: le_log_iff)
  from assms(1,3) show "log 2 x < of_int k + 1" by (simp add: log_less_iff)
qed

lemma ulp_pos: "0 < (2::real) powr (of_int e - 52)"
  by simp

lemma ulp_low: "2 ^ 52 * (2::real) powr (of_int e - 52) = 2 powr of_int e"
proof -
  have "(2::real) ^ 52 = 2 powr 52" by (simp add: powr_numeral [symmetric] del: powr_numeral)
  then have "2 ^ 52 * (2::real) powr (of_int e - 52) = 2 powr (52 + (of_int e - 52))"
    by (simp only: powr_add)
  then show ?thesis by simp
qed

lemma ulp_high: "2 ^ 53 * (2::real) powr (of_int e - 52) = (2::real) powr (of_int e + 1)"
proof -
  have "(2::real) ^ 53 = 2 powr 53" by (simp add: powr_numeral [symmetric] del: powr_numeral)
  then have "2 ^ 53 * (2::real) powr (of_int e - 52) = 2 powr (53 + (of_int e - 52))"
    by (simp only: powr_add)
  moreover have "53 + (of_int e - 52) = (of_int e + 1 :: real)" by simp
  ultimately show ?thesis by simp
qed

lemma double_round_at:
  assumes "0 < x" and "2 powr of_int k \<le> x" and "x < (2::real) powr (of_int k + 1)"
  shows "double_round x = of_int (round_even (x / (2::real) powr (of_int k - 52))) * (2::real) powr (of_int k - 52)"
  using assms floor_log_unique [OF assms] by (simp add: double_round_def Let_def)

lemma scaled_range:
  assumes "2 powr of_int k \<le> x" and "x < (2::real) powr (of_int k + 1)"
  shows "2 ^ 52 \<le> x / (2::real) powr (of_int k - 52)" and "x / (2::real) powr (of_int k - 52) < 2 ^ 53"
proof -
  let ?u = "(2::real) powr (of_int k - 52)"
  have u: "0 < ?u" by simp
  from assms(1) ulp_low [of k] have "2 ^ 52 * ?u \<le> x" by simp
  with u show "2 ^ 52 \<le> x / ?u" by (simp add: pos_le_divide_eq)
  from assms(2) ulp_high [of k] have "x < 2 ^ 53 * ?u" by simp
  with u show "x / ?u < 2 ^ 53" by (simp add: pos_divide_less_eq)
qed

lemma double_round_range:
  assumes "0 < x" and "2 powr of_int k \<le> x" and "x < (2::real) powr (of_int k + 1)"
  shows "2 powr of_int k \<le> double_round x" and "double_round x \<le> (2::real) powr (of_int k + 1)"
    and "2 ^ 52 \<le> round_even (x / (2::real) powr (of_int k - 52))"
    and "round_even (x / (2::real) powr (of_int k - 52)) \<le> 2 ^ 53"
proof -
  let ?u = "(2::real) powr (of_int k - 52)"
  let ?r = "round_even (x / ?u)"
  note sr = scaled_range [OF assms(2,3)]
  have "of_int (2 ^ 52) \<le> x / ?u" using sr(1) by simp
  then show lo: "2 ^ 52 \<le> ?r" by (rule round_even_ge)
  have "x / ?u \<le> of_int (2 ^ 53)" using sr(2) by simp
  then show hi: "?r \<le> 2 ^ 53" by (rule round_even_le)
  from lo have "(2::real) ^ 52 \<le> of_int ?r" by (metis of_int_le_iff of_int_numeral of_int_power)
  then have "2 ^ 52 * ?u \<le> of_int ?r * ?u" by (intro mult_right_mono) simp_all
  then show "2 powr of_int k \<le> double_round x"
    by (simp only: double_round_at [OF assms] ulp_low)
  from hi have "of_int ?r \<le> (2::real) ^ 53" by (metis of_int_le_iff of_int_numeral of_int_power)
  then have "of_int ?r * ?u \<le> 2 ^ 53 * ?u" by (intro mult_right_mono) simp_all
  then show "double_round x \<le> (2::real) powr (of_int k + 1)"
    by (simp only: double_round_at [OF assms] ulp_high)
qed

lemma double_round_pos: "0 < x \<Longrightarrow> 0 < double_round x"
proof -
  assume x: "0 < x"
  from double_round_range(1) [OF x binade [OF x]]
  have "2 powr of_int \<lfloor>log 2 x\<rfloor> \<le> double_round x" .
  moreover have "(0::real) < 2 powr of_int \<lfloor>log 2 x\<rfloor>" by simp
  ultimately show ?thesis by linarith
qed

lemma double_round_mono:
  assumes "0 \<le> a" and "a \<le> b"
  shows "double_round a \<le> double_round b"
proof (cases "a = 0")
  case True
  show ?thesis
  proof (cases "b = 0")
    case True
    with \<open>a = 0\<close> show ?thesis by simp
  next
    case False
    with assms True have "0 < b" by simp
    from double_round_pos [OF this] True show ?thesis by (simp add: double_round_def)
  qed
next
  case False
  with assms have a: "0 < a" and b: "0 < b" by simp_all
  let ?ea = "\<lfloor>log 2 a\<rfloor>" and ?eb = "\<lfloor>log 2 b\<rfloor>"
  from a assms(2) have "log 2 a \<le> log 2 b" by simp
  then have ee: "?ea \<le> ?eb" by (rule floor_mono)
  show ?thesis
  proof (cases "?ea = ?eb")
    case True
    let ?u = "(2::real) powr (of_int ?eb - 52)"
    have "a / ?u \<le> b / ?u" using assms(2) by (intro divide_right_mono) simp_all
    then have "round_even (a / ?u) \<le> round_even (b / ?u)" by (rule round_even_mono)
    then have "of_int (round_even (a / ?u)) * ?u \<le> of_int (round_even (b / ?u)) * ?u"
      by (intro mult_right_mono) simp_all
    with a b True show ?thesis by (simp add: double_round_def Let_def)
  next
    case False
    with ee have "?ea + 1 \<le> ?eb" by simp
    then have "(of_int ?ea + 1 :: real) \<le> of_int ?eb" by (metis of_int_le_iff of_int_add of_int_1)
    then have "(2::real) powr (of_int ?ea + 1) \<le> 2 powr of_int ?eb" by simp
    with double_round_range(2) [OF a binade [OF a]] double_round_range(1) [OF b binade [OF b]]
    show ?thesis by linarith
  qed
qed

lemma double_round_idem:
  assumes "0 \<le> a"
  shows "double_round (double_round a) = double_round a"
proof (cases "a = 0")
  case True
  then show ?thesis by (simp add: double_round_def)
next
  case False
  with assms have a: "0 < a" by simp
  let ?e = "\<lfloor>log 2 a\<rfloor>"
  let ?u = "(2::real) powr (of_int ?e - 52)"
  let ?r = "round_even (a / ?u)"
  let ?v = "double_round a"
  note rg = double_round_range [OF a binade [OF a]]
  have v: "?v = of_int ?r * ?u" by (rule double_round_at [OF a binade [OF a]])
  have vpos: "0 < ?v" by (rule double_round_pos [OF a])
  show ?thesis
  proof (cases "?r = 2 ^ 53")
    case True
    let ?w = "(2::real) powr (of_int (?e + 1) - 52)"
    from True v have "?v = 2 ^ 53 * ?u" by simp
    then have top: "?v = 2 powr (of_int ?e + 1)" by (simp only: ulp_high)
    then have lo: "2 powr of_int (?e + 1) \<le> ?v" by simp
    have "(2::real) powr (of_int ?e + 1) < 2 powr (of_int (?e + 1) + 1)" by simp
    with top have hi: "?v < 2 powr (of_int (?e + 1) + 1)" by simp
    from top ulp_low [of "?e + 1"] have "?v = 2 ^ 52 * ?w" by simp
    then have "?v / ?w = of_int (2 ^ 52)" by simp
    then have "round_even (?v / ?w) = 2 ^ 52" by (simp only: round_even_of_int)
    with double_round_at [OF vpos lo hi] have "double_round ?v = 2 ^ 52 * ?w" by simp
    with \<open>?v = 2 ^ 52 * ?w\<close> show ?thesis by simp
  next
    case False
    with rg(4) have "?r < 2 ^ 53" by simp
    then have "of_int ?r < (2::real) ^ 53" by (metis of_int_less_iff of_int_numeral of_int_power)
    then have "of_int ?r * ?u < 2 ^ 53 * ?u" by (intro mult_strict_right_mono) simp_all
    with v have hi: "?v < 2 powr (of_int ?e + 1)" by (simp only: ulp_high)
    have "?v / ?u = of_int ?r" using v by simp
    then have "round_even (?v / ?u) = ?r" by (simp only: round_even_of_int)
    with double_round_at [OF vpos rg(1) hi] v show ?thesis by simp
  qed
qed

lemma double_round_nonneg: "0 \<le> a \<Longrightarrow> 0 \<le> double_round a"
  using double_round_pos [of a] by (cases "a = 0") (simp_all add: double_round_def less_imp_le)

subsection \<open>Laws of the addition on floats that are not negative\<close>

lemma double_add_closed: "x \<in> doubles \<Longrightarrow> y \<in> doubles \<Longrightarrow> double_add x y \<in> doubles"
  by (simp add: doubles_def double_add_def double_round_idem double_round_nonneg)

lemma double_add_mono:
  "x \<in> doubles \<Longrightarrow> y \<in> doubles \<Longrightarrow> y \<le> z \<Longrightarrow> double_add x y \<le> double_add x z"
  by (simp add: doubles_def double_add_def double_round_mono)

lemma double_add_increasing:
  assumes "x \<in> doubles" and "y \<in> doubles"
  shows "x \<le> double_add x y"
proof -
  from assms have "0 \<le> x" "x \<le> x + y" and fx: "double_round x = x" by (simp_all add: doubles_def)
  then have "double_round x \<le> double_round (x + y)" by (intro double_round_mono)
  with fx show ?thesis by (simp add: double_add_def)
qed

subsection \<open>Evaluating a rounding\<close>

lemma double_round_small:
  assumes "2 ^ 52 \<le> x * 2 ^ n" and "x * 2 ^ n < 2 ^ 53"
  shows "double_round x = of_int (round_even (x * 2 ^ n)) / 2 ^ n"
proof -
  let ?k = "52 - int n"
  have u: "(2::real) powr (of_int ?k - 52) = 1 / 2 ^ n"
  proof -
    have "(of_int ?k - 52 :: real) = - real n" by simp
    then have "(2::real) powr (of_int ?k - 52) = 2 powr (- real n)" by simp
    also have "\<dots> = 1 / 2 powr real n" by (simp add: powr_minus_divide)
    also have "\<dots> = 1 / 2 ^ n" by (simp add: powr_realpow)
    finally show ?thesis .
  qed
  have x: "0 < x"
  proof (rule ccontr)
    assume "\<not> 0 < x"
    then have "x * 2 ^ n \<le> 0" by (simp add: mult_le_0_iff)
    with assms(1) show False by simp
  qed
  have "2 ^ 52 / 2 ^ n \<le> x" using assms(1) by (simp add: field_simps)
  then have "2 ^ 52 * (2::real) powr (of_int ?k - 52) \<le> x" by (simp only: u) simp
  then have lo: "2 powr of_int ?k \<le> x" by (simp only: ulp_low)
  have "x < 2 ^ 53 / 2 ^ n" using assms(2) by (simp add: field_simps)
  then have "x < 2 ^ 53 * (2::real) powr (of_int ?k - 52)" by (simp only: u) simp
  then have hi: "x < 2 powr (of_int ?k + 1)" by (simp only: ulp_high)
  have "double_round x = of_int (round_even (x / (1 / 2 ^ n))) * (1 / 2 ^ n)"
    using double_round_at [OF x lo hi] by (simp only: u)
  then show ?thesis by simp
qed

lemma double_round_large:
  assumes "2 ^ 52 \<le> x / 2 ^ n" and "x / 2 ^ n < 2 ^ 53"
  shows "double_round x = of_int (round_even (x / 2 ^ n)) * 2 ^ n"
proof -
  let ?k = "52 + int n"
  have u: "(2::real) powr (of_int ?k - 52) = 2 ^ n"
  proof -
    have "(of_int ?k - 52 :: real) = real n" by simp
    then show ?thesis by (simp add: powr_realpow)
  qed
  have x: "0 < x"
  proof (rule ccontr)
    assume "\<not> 0 < x"
    then have "x / 2 ^ n \<le> 0" by (simp add: divide_le_0_iff)
    with assms(1) show False by simp
  qed
  have "2 ^ 52 * 2 ^ n \<le> x" using assms(1) by (simp add: field_simps)
  then have "2 ^ 52 * (2::real) powr (of_int ?k - 52) \<le> x" by (simp only: u)
  then have lo: "2 powr of_int ?k \<le> x" by (simp only: ulp_low)
  have "x < 2 ^ 53 * 2 ^ n" using assms(2) by (simp add: field_simps)
  then have "x < 2 ^ 53 * (2::real) powr (of_int ?k - 52)" by (simp only: u)
  then have hi: "x < 2 powr (of_int ?k + 1)" by (simp only: ulp_high)
  show ?thesis using double_round_at [OF x lo hi] by (simp only: u)
qed

lemma double_add_small:
  assumes "2 ^ 52 \<le> (x + y) * 2 ^ n" and "(x + y) * 2 ^ n < 2 ^ 53"
    and "of_int (round_even ((x + y) * 2 ^ n)) / 2 ^ n = z"
  shows "double_add x y = z"
  using double_round_small [OF assms(1,2)] assms(3) by (simp only: double_add_def)

lemma double_add_large:
  assumes "2 ^ 52 \<le> (x + y) / 2 ^ n" and "(x + y) / 2 ^ n < 2 ^ 53"
    and "of_int (round_even ((x + y) / 2 ^ n)) * 2 ^ n = z"
  shows "double_add x y = z"
  using double_round_large [OF assms(1,2)] assms(3) by (simp only: double_add_def)

lemma double_round_zero: "double_round 0 = 0"
  by (simp add: double_round_def)

lemma double_add_zero_left: "is_double x \<Longrightarrow> double_add 0 x = x"
  by (simp add: double_add_def is_double_def)

lemma double_add_zero_right: "is_double x \<Longrightarrow> double_add x 0 = x"
  by (simp add: double_add_def is_double_def)

lemma is_double_small:
  assumes "2 ^ 52 \<le> m" and "m < 2 ^ 53"
  shows "is_double (of_int m / 2 ^ n)"
proof -
  from assms have "(2::real) ^ 52 \<le> of_int m" and "of_int m < (2::real) ^ 53"
    by (metis of_int_le_iff of_int_numeral of_int_power,
        metis of_int_less_iff of_int_numeral of_int_power)
  then have "double_round (of_int m / 2 ^ n)
      = of_int (round_even (of_int m / 2 ^ n * 2 ^ n)) / 2 ^ n"
    by (intro double_round_small) simp_all
  then show ?thesis by (simp add: is_double_def)
qed

lemma is_double_large:
  assumes "2 ^ 52 \<le> m" and "m < 2 ^ 53"
  shows "is_double (of_int m * 2 ^ n)"
proof -
  from assms have "(2::real) ^ 52 \<le> of_int m" and "of_int m < (2::real) ^ 53"
    by (metis of_int_le_iff of_int_numeral of_int_power,
        metis of_int_less_iff of_int_numeral of_int_power)
  then have "double_round (of_int m * 2 ^ n)
      = of_int (round_even (of_int m * 2 ^ n / 2 ^ n)) * 2 ^ n"
    by (intro double_round_large) simp_all
  then show ?thesis by (simp add: is_double_def)
qed

lemma doubles_max_zero: "is_double x \<Longrightarrow> max x 0 \<in> doubles"
  by (simp add: doubles_def is_double_def max_def double_round_zero)

lemma doubles_zero: "0 \<in> doubles"
  by (simp add: doubles_def double_round_zero)

lemma doubles_nonneg: "x \<in> doubles \<Longrightarrow> 0 \<le> x"
  by (simp add: doubles_def)

lemma doubles_is_double: "x \<in> doubles \<Longrightarrow> is_double x"
  by (simp add: doubles_def is_double_def)

section \<open>Properties of the global timeline\<close>

subsection \<open>The schedule with exact addition\<close>

lemma dep_scan_with_plus: "dep_scan_with (+) cues A dep k = dep_scan cues A dep k"
  by (induction k) simp_all

lemma schedule_step_with_plus:
  "schedule_step_with (+) cues i c st = schedule_step cues i c st"
  by (cases st)
    (simp add: schedule_step_with_def schedule_step_def dep_scan_with_plus
       split: StartMode.splits option.splits)

lemma schedule_loop_with_plus:
  "schedule_loop_with (+) cues i rest st = schedule_loop cues i rest st"
  by (induction rest arbitrary: i st) (simp_all add: schedule_step_with_plus)

lemma compute_schedule_with_plus: "compute_schedule_with (+) cues = compute_schedule cues"
  by (simp add: compute_schedule_with_def compute_schedule_def schedule_loop_with_plus)

subsection \<open>Local starts are floats and not negative\<close>

lemma double_fields_nth:
  assumes "list_all double_fields cues" and "j < length cues"
  shows "max (start_time_s (cues ! j)) 0 \<in> doubles" and "max (duration_s (cues ! j)) 0 \<in> doubles"
proof -
  from assms have "double_fields (cues ! j)" by (simp add: list_all_length)
  then show "max (start_time_s (cues ! j)) 0 \<in> doubles"
    and "max (duration_s (cues ! j)) 0 \<in> doubles"
    by (simp_all add: double_fields_def doubles_max_zero)
qed

lemma double_fields_mem:
  assumes "list_all double_fields cues" and "c \<in> set cues"
  shows "max (start_time_s c) 0 \<in> doubles" and "max (duration_s c) 0 \<in> doubles"
proof -
  from assms obtain j where "j < length cues" and "c = cues ! j" by (metis in_set_conv_nth)
  with double_fields_nth [OF assms(1)]
  show "max (start_time_s c) 0 \<in> doubles" and "max (duration_s c) 0 \<in> doubles" by simp_all
qed

lemma dep_scan_with_doubles:
  assumes "\<And>j. j < k \<Longrightarrow> A ! j \<in> doubles"
    and "\<And>j. j < k \<Longrightarrow> max (duration_s (cs ! j)) 0 \<in> doubles"
  shows "dep_scan_with double_add cs A dep k \<in> doubles"
  using assms by (induction k) (simp_all add: doubles_zero double_add_closed)

lemma schedule_step_with_doubles:
  assumes fields: "list_all double_fields cues" and index: "index < length cues"
    and c: "c \<in> set cues" and len: "length A = index" and A: "\<forall>x\<in>set A. x \<in> doubles"
  shows "\<exists>s ct'. schedule_step_with double_add cues index c (A, ct) = (A @ [s], ct')
           \<and> s \<in> doubles"
proof (cases "start_mode c")
  case AT_TIME
  with double_fields_mem(1) [OF fields c] show ?thesis
    by (simp add: schedule_step_with_def Let_def)
next
  case AFTER_PREVIOUS
  show ?thesis
  proof (cases "index = 0")
    case True
    with AFTER_PREVIOUS show ?thesis
      by (simp add: schedule_step_with_def Let_def doubles_zero)
  next
    case False
    with len have "A ! (index - 1) \<in> set A" by (intro nth_mem) simp
    with A have "A ! (index - 1) \<in> doubles" by simp
    moreover from index have "max (duration_s (cues ! (index - 1))) 0 \<in> doubles"
      by (intro double_fields_nth(2) [OF fields]) simp
    ultimately have "double_add (A ! (index - 1)) (max (duration_s (cues ! (index - 1))) 0)
        \<in> doubles"
      by (rule double_add_closed)
    with False AFTER_PREVIOUS show ?thesis by (simp add: schedule_step_with_def Let_def)
  qed
next
  case AFTER_CUE
  have "dep_scan_with double_add cues A dep index \<in> doubles" for dep
  proof (rule dep_scan_with_doubles)
    fix j assume j: "j < index"
    with len have "A ! j \<in> set A" by (intro nth_mem) simp
    with A show "A ! j \<in> doubles" by simp
    from j index show "max (duration_s (cues ! j)) 0 \<in> doubles"
      by (intro double_fields_nth(2) [OF fields]) simp
  qed
  with AFTER_CUE show ?thesis
    by (simp add: schedule_step_with_def Let_def doubles_zero split: option.splits)
qed

lemma schedule_loop_with_doubles:
  assumes "list_all double_fields cues"
  shows "index + length rest = length cues \<Longrightarrow> set rest \<subseteq> set cues \<Longrightarrow> length A = index
     \<Longrightarrow> \<forall>x\<in>set A. x \<in> doubles
     \<Longrightarrow> length (fst (schedule_loop_with double_add cues index rest (A, ct))) = length cues
         \<and> (\<forall>x\<in>set (fst (schedule_loop_with double_add cues index rest (A, ct))). x \<in> doubles)"
proof (induction rest arbitrary: index A ct)
  case Nil
  then show ?case by simp
next
  case (Cons c rest)
  from Cons.prems have index: "index < length cues" and c: "c \<in> set cues" by simp_all
  from schedule_step_with_doubles [OF assms index c Cons.prems(3,4), of ct]
  obtain s ct' where step: "schedule_step_with double_add cues index c (A, ct) = (A @ [s], ct')"
    and s: "s \<in> doubles" by blast
  have "length (fst (schedule_loop_with double_add cues (Suc index) rest (A @ [s], ct')))
        = length cues
     \<and> (\<forall>x\<in>set (fst (schedule_loop_with double_add cues (Suc index) rest (A @ [s], ct'))).
          x \<in> doubles)"
  proof (rule Cons.IH)
    from Cons.prems(1) show "Suc index + length rest = length cues" by simp
    from Cons.prems(2) show "set rest \<subseteq> set cues" by simp
    from Cons.prems(3) show "length (A @ [s]) = Suc index" by simp
    from Cons.prems(4) s show "\<forall>x\<in>set (A @ [s]). x \<in> doubles" by simp
  qed
  then show ?case unfolding schedule_loop_with.simps step .
qed

lemma compute_schedule_with_doubles:
  assumes "list_all double_fields cues"
  shows "length (compute_schedule_with double_add cues) = length cues"
    and "\<forall>x\<in>set (compute_schedule_with double_add cues). x \<in> doubles"
  using schedule_loop_with_doubles [OF assms, of 0 cues "[]" 0]
  by (simp_all add: compute_schedule_with_def)

lemma zip_schedule_doubles:
  assumes "list_all double_fields cues"
    and "z \<in> set (zip cues (compute_schedule_with double_add cues))"
  shows "snd z \<in> doubles" and "max (duration_s (fst z)) 0 \<in> doubles"
    and "double_add (snd z) (max (duration_s (fst z)) 0) \<in> doubles"
proof -
  obtain c s where z: "z = (c, s)" by (cases z)
  with assms(2) have "c \<in> set cues" and "s \<in> set (compute_schedule_with double_add cues)"
    by (auto dest: set_zip_leftD set_zip_rightD)
  with compute_schedule_with_doubles(2) [OF assms(1)] double_fields_mem(2) [OF assms(1)] z
  show "snd z \<in> doubles" and "max (duration_s (fst z)) 0 \<in> doubles" by simp_all
  then show "double_add (snd z) (max (duration_s (fst z)) 0) \<in> doubles"
    by (rule double_add_closed)
qed

subsection \<open>The loops as maps over the rooms\<close>

lemma room_loop_eq:
  "room_loop rn off zs (gi, re) =
     (gi @ map (\<lambda>(c, local_start). \<lparr>room_name = rn, cue = c,
            start_time = double_add off local_start, duration = max (duration_s c) 0\<rparr>) zs,
      Max (set (re # map (\<lambda>(c, local_start). double_add local_start (max (duration_s c) 0)) zs)))"
proof (induction zs arbitrary: gi re)
  case Nil
  show ?case by simp
next
  case (Cons z zs)
  obtain c s where z: "z = (c, s)" by (cases z)
  have "Max (insert (max re e) B) = Max (insert re (insert e B))"
    if "finite B" for B :: "real set" and e
    using that by (cases "B = {}") (simp_all add: max.assoc)
  then show ?case
    by (simp add: z Cons.IH Let_def)
qed

lemma room_end_of_mem:
  assumes "cues \<noteq> []" and "list_all double_fields cues"
  shows "\<exists>z\<in>set (zip cues (compute_schedule_with double_add cues)).
           room_end_of cues = double_add (snd z) (max (duration_s (fst z)) 0)"
proof -
  let ?f = "\<lambda>(c, local_start). double_add local_start (max (duration_s c) (0::real))"
  let ?zs = "zip cues (compute_schedule_with double_add cues)"
  from assms have "length ?zs = length cues"
    by (simp add: compute_schedule_with_doubles(1))
  with assms(1) have "?zs \<noteq> []" by (metis length_0_conv)
  then have "set (map ?f ?zs) \<noteq> {}" by simp
  then have "Max (set (map ?f ?zs)) \<in> set (map ?f ?zs)" by (intro Max_in) simp_all
  then obtain z where "z \<in> set ?zs" and "Max (set (map ?f ?zs)) = ?f z" by auto
  with assms(1) show ?thesis by (auto simp add: room_end_of_def split_beta)
qed

lemma room_end_of_doubles:
  assumes "list_all double_fields cues"
  shows "room_end_of cues \<in> doubles"
proof (cases "cues = []")
  case True
  then show ?thesis by (simp add: room_end_of_def doubles_zero)
next
  case False
  from room_end_of_mem [OF False assms] zip_schedule_doubles(3) [OF assms]
  show ?thesis by auto
qed

lemma room_end_of_ge:
  assumes "z \<in> set (zip cues (compute_schedule_with double_add cues))"
  shows "double_add (snd z) (max (duration_s (fst z)) 0) \<le> room_end_of cues"
proof -
  let ?f = "\<lambda>(c, local_start). double_add local_start (max (duration_s c) (0::real))"
  let ?zs = "zip cues (compute_schedule_with double_add cues)"
  from assms have ne: "cues \<noteq> []" by auto
  from assms have "?f z \<in> set (map ?f ?zs)" by simp
  then have "?f z \<le> Max (set (map ?f ?zs))" by (intro Max_ge) simp_all
  also from ne have "\<dots> = room_end_of cues" by (simp only: room_end_of_def if_False)
  finally show ?thesis by (simp add: split_beta)
qed

lemma room_loop_room_end:
  assumes "cues \<noteq> []" and "list_all double_fields cues"
  shows "snd (room_loop rn off (zip cues (compute_schedule_with double_add cues)) (gi, 0))
     = room_end_of cues"
proof -
  let ?f = "\<lambda>(c, local_start). double_add local_start (max (duration_s c) (0::real))"
  let ?zs = "zip cues (compute_schedule_with double_add cues)"
  from room_end_of_mem [OF assms] obtain z where z: "z \<in> set ?zs" by blast
  then have ne: "set (map ?f ?zs) \<noteq> {}" by auto
  from room_end_of_doubles [OF assms(2)] have "0 \<le> room_end_of cues" by (rule doubles_nonneg)
  with assms(1) have "0 \<le> Max (set (map ?f ?zs))" by (simp only: room_end_of_def if_False)
  moreover have "Max (insert 0 (set (map ?f ?zs))) = max 0 (Max (set (map ?f ?zs)))"
    using ne by (intro Max_insert) simp_all
  ultimately have m: "Max (set (0 # map ?f ?zs)) = Max (set (map ?f ?zs))"
    by (simp only: list.set max_absorb2)
  have "snd (room_loop rn off ?zs (gi, 0)) = Max (set (0 # map ?f ?zs))"
    by (simp only: room_loop_eq snd_conv)
  also note m
  also from assms(1) have "Max (set (map ?f ?zs)) = room_end_of cues"
    by (simp only: room_end_of_def if_False)
  finally show ?thesis .
qed

lemma stats_loop_eq:
  "double_tabs tabs \<Longrightarrow> off \<in> doubles \<Longrightarrow>
   stats_loop tabs (gi, off) =
     (gi @ global_entries off tabs,
      foldl (\<lambda>total (rn, cues). double_add total (room_end_of cues)) off tabs)"
proof (induction tabs arbitrary: gi off)
  case Nil
  show ?case by simp
next
  case (Cons t tabs)
  obtain rn cues where t: "t = (rn, cues)" by (cases t)
  from Cons.prems(1) have fields: "list_all double_fields cues" and rest: "double_tabs tabs"
    by (simp_all add: double_tabs_def t)
  show ?case
  proof (cases "cues = []")
    case True
    from Cons.prems(2) have "double_add off 0 = off"
      by (intro double_add_zero_right doubles_is_double)
    with True Cons.IH [OF rest Cons.prems(2)] show ?thesis
      by (simp add: t entries_of_def room_end_of_def compute_schedule_with_def)
  next
    case False
    obtain gi' re where rl:
      "room_loop rn off (zip cues (compute_schedule_with double_add cues)) (gi, 0) = (gi', re)"
      by (cases "room_loop rn off (zip cues (compute_schedule_with double_add cues)) (gi, 0)")
    from rl room_loop_room_end [OF False fields, of rn off gi] have re: "re = room_end_of cues"
      by simp
    from rl have gi': "gi' = gi @ entries_of rn off cues"
      by (simp add: room_loop_eq entries_of_def)
    from Cons.prems(2) room_end_of_doubles [OF fields]
    have "double_add off (room_end_of cues) \<in> doubles" by (rule double_add_closed)
    from Cons.IH [OF rest this] False show ?thesis
      by (simp add: t rl re gi')
  qed
qed

lemma length_entries_of:
  "list_all double_fields cues \<Longrightarrow> length (entries_of rn off cues) = length cues"
  by (simp add: entries_of_def compute_schedule_with_doubles(1))

lemma global_entries_segment:
  assumes "double_tabs tabs" and "N < length tabs"
  shows "take (length (snd (tabs ! N)))
       (drop (sum_list (map (\<lambda>(rn, cues). length cues) (take N tabs))) (global_entries off tabs))
     = entries_of (fst (tabs ! N))
         (foldl (\<lambda>total (rn, cues). double_add total (room_end_of cues)) off (take N tabs))
         (snd (tabs ! N))"
  using assms
proof (induction tabs arbitrary: N off)
  case Nil
  then show ?case by simp
next
  case (Cons t tabs)
  obtain rn cues where t: "t = (rn, cues)" by (cases t)
  from Cons.prems(1) have fields: "list_all double_fields cues" and rest: "double_tabs tabs"
    by (simp_all add: double_tabs_def t)
  show ?case
  proof (cases N)
    case 0
    then show ?thesis by (simp add: t length_entries_of [OF fields])
  next
    case (Suc M)
    with Cons.prems have M: "M < length tabs" by simp
    from Cons.IH [OF rest M, of "double_add off (room_end_of cues)"] Suc show ?thesis
      by (simp add: t length_entries_of [OF fields])
  qed
qed

lemma room_entries_eq:
  assumes "double_tabs room_tabs" and "N < length room_tabs"
  shows "room_entries room_tabs N =
     entries_of (fst (room_tabs ! N)) (room_offset room_tabs N) (snd (room_tabs ! N))"
  using global_entries_segment [OF assms, of 0]
  by (simp add: room_entries_def compute_all_stats_def stats_loop_eq [OF assms(1) doubles_zero]
      room_offset_def)

subsection \<open>The running offset\<close>

lemma double_tabs_nth:
  "double_tabs tabs \<Longrightarrow> M < length tabs \<Longrightarrow> list_all double_fields (snd (tabs ! M))"
  by (simp add: double_tabs_def list_all_length split_beta)

lemma room_offset_Suc:
  "M < length tabs \<Longrightarrow>
   room_offset tabs (Suc M) = double_add (room_offset tabs M) (room_end_of (snd (tabs ! M)))"
  by (simp add: room_offset_def take_Suc_conv_app_nth split_beta)

lemma room_offset_doubles:
  assumes "double_tabs tabs"
  shows "room_offset tabs N \<in> doubles"
proof (induction N)
  case 0
  show ?case by (simp add: room_offset_def doubles_zero)
next
  case (Suc N)
  show ?case
  proof (cases "N < length tabs")
    case True
    from Suc room_end_of_doubles [OF double_tabs_nth [OF assms True]]
    have "double_add (room_offset tabs N) (room_end_of (snd (tabs ! N))) \<in> doubles"
      by (rule double_add_closed)
    then show ?thesis by (simp only: room_offset_Suc [OF True])
  next
    case False
    then have "take (Suc N) tabs = take N tabs" by simp
    with Suc show ?thesis by (simp add: room_offset_def)
  qed
qed

lemma room_offset_mono:
  assumes "double_tabs tabs"
  shows "M \<le> N \<Longrightarrow> room_offset tabs M \<le> room_offset tabs N"
proof (induction N)
  case 0
  then show ?case by simp
next
  case (Suc N)
  show ?case
  proof (cases "M = Suc N")
    case True
    then show ?thesis by simp
  next
    case False
    with Suc have le: "room_offset tabs M \<le> room_offset tabs N" by simp
    show ?thesis
    proof (cases "N < length tabs")
      case True
      from room_offset_doubles [OF assms] room_end_of_doubles [OF double_tabs_nth [OF assms True]]
      have "room_offset tabs N \<le> double_add (room_offset tabs N) (room_end_of (snd (tabs ! N)))"
        by (rule double_add_increasing)
      with le show ?thesis by (simp only: room_offset_Suc [OF True])
    next
      case False
      then have "take (Suc N) tabs = take N tabs" by simp
      with le show ?thesis by (simp add: room_offset_def)
    qed
  qed
qed

lemma entries_of_bounds:
  assumes "list_all double_fields cues" and "off \<in> doubles"
    and "it \<in> set (entries_of rn off cues)"
  shows "off \<le> start_time it" and "start_time it \<le> double_add off (room_end_of cues)"
proof -
  let ?zs = "zip cues (compute_schedule_with double_add cues)"
  from assms(3) obtain z where z: "z \<in> set ?zs"
    and it: "it = \<lparr>room_name = rn, cue = fst z, start_time = double_add off (snd z),
        duration = max (duration_s (fst z)) 0\<rparr>"
    by (auto simp add: entries_of_def split_beta)
  note d = zip_schedule_doubles [OF assms(1) z]
  from assms(2) d(1) have "off \<le> double_add off (snd z)" by (rule double_add_increasing)
  with it show "off \<le> start_time it" by simp
  from d(1,2) have "snd z \<le> double_add (snd z) (max (duration_s (fst z)) 0)"
    by (rule double_add_increasing)
  also note room_end_of_ge [OF z]
  finally have "double_add off (snd z) \<le> double_add off (room_end_of cues)"
    by (intro double_add_mono assms(2) d(1))
  with it show "start_time it \<le> double_add off (room_end_of cues)" by simp
qed

subsection \<open>The example shows\<close>

lemma example_doubles:
  "is_double 0" "is_double 1" "is_double 5" "is_double 10" "is_double 15"
  "is_double d0_1" "is_double d0_2" "is_double d0_3" "is_double d0_6"
  "is_double d0_30000000000000004" "is_double d0_6000000000000001" "is_double d2_53"
proof -
  show "is_double 0" by (simp add: is_double_def double_round_zero)
  show "is_double 1" using is_double_small [of "2 ^ 52" 52] by simp
  show "is_double 5" using is_double_small [of 5629499534213120 50] by simp
  show "is_double 10" using is_double_small [of 5629499534213120 49] by simp
  show "is_double 15" using is_double_small [of 8444249301319680 49] by simp
  show "is_double d0_1" using is_double_small [of 7205759403792794 56] by (simp add: d0_1_def)
  show "is_double d0_2" using is_double_small [of 7205759403792794 55] by (simp add: d0_2_def)
  show "is_double d0_3" using is_double_small [of 5404319552844595 54] by (simp add: d0_3_def)
  show "is_double d0_6" using is_double_small [of 5404319552844595 53] by (simp add: d0_6_def)
  show "is_double d0_30000000000000004"
    using is_double_small [of 5404319552844596 54] by (simp add: d0_30000000000000004_def)
  show "is_double d0_6000000000000001"
    using is_double_small [of 5404319552844596 53] by (simp add: d0_6000000000000001_def)
  show "is_double d2_53" using is_double_large [of "2 ^ 52" 1] by (simp add: d2_53_def)
qed

lemmas example_zero_sums =
  example_doubles [THEN double_add_zero_left] example_doubles [THEN double_add_zero_right]

lemma example_order:
  "0 \<le> d0_1" "0 \<le> d0_2" "0 \<le> d0_3" "0 \<le> d2_53"
  "d0_30000000000000004 < d0_6" "d0_6 < d0_6000000000000001" "d0_6 < d1_6"
  by (simp_all add: d0_1_def d0_2_def d0_3_def d2_53_def d0_6_def d0_30000000000000004_def
      d0_6000000000000001_def d1_6_def)

lemma example_sums:
  "double_add d0_1 d0_2 = d0_30000000000000004"
  "double_add d0_2 d0_3 = 1 / 2"
  "double_add d0_1 (1 / 2) = d0_6"
  "double_add d0_30000000000000004 d0_3 = d0_6000000000000001"
  "double_add d0_6 1 = d1_6"
  "double_add d2_53 1 = d2_53"
  "double_add 10 5 = 15"
proof -
  show "double_add d0_1 d0_2 = d0_30000000000000004"
    by (rule double_add_small [where n = 54])
      (simp_all add: d0_1_def d0_2_def d0_30000000000000004_def round_even_def Let_def)
  show "double_add d0_2 d0_3 = 1 / 2"
    by (rule double_add_small [where n = 53])
      (simp_all add: d0_2_def d0_3_def round_even_def Let_def)
  show "double_add d0_1 (1 / 2) = d0_6"
    by (rule double_add_small [where n = 53])
      (simp_all add: d0_1_def d0_6_def round_even_def Let_def)
  show "double_add d0_30000000000000004 d0_3 = d0_6000000000000001"
    by (rule double_add_small [where n = 53])
      (simp_all add: d0_30000000000000004_def d0_3_def d0_6000000000000001_def round_even_def
         Let_def)
  show "double_add d0_6 1 = d1_6"
    by (rule double_add_small [where n = 52])
      (simp_all add: d0_6_def d1_6_def round_even_def Let_def)
  show "double_add d2_53 1 = d2_53"
    by (rule double_add_large [where n = 1])
      (simp_all add: d2_53_def round_even_def Let_def)
  show "double_add 10 5 = 15"
    by (rule double_add_small [where n = 49]) (simp_all add: round_even_def Let_def)
qed

lemma example_tabs_double: "double_tabs example_tabs"
  by (simp add: double_tabs_def double_fields_def example_tabs_def default_cue_def
      example_doubles)

lemma rounding_tabs_double: "double_tabs rounding_tabs"
  by (simp add: double_tabs_def double_fields_def rounding_tabs_def default_cue_def
      example_doubles)

lemma absorbing_tabs_double: "double_tabs absorbing_tabs"
  by (simp add: double_tabs_def double_fields_def absorbing_tabs_def default_cue_def
      example_doubles)

lemma example_tabs_stats:
  "map start_time (fst (compute_all_stats example_tabs)) = [0, 10, 10]"
  "map duration (fst (compute_all_stats example_tabs)) = [10, 0, 5]"
  "snd (compute_all_stats example_tabs) = 15"
  by (simp_all add: compute_all_stats_def example_tabs_def compute_schedule_with_def
      default_cue_def schedule_step_with_def example_zero_sums example_sums)

lemma rounding_tabs_stats:
  "map start_time (fst (compute_all_stats rounding_tabs)) = [0, d0_30000000000000004, d0_6]"
  "map duration (fst (compute_all_stats rounding_tabs)) = [d0_1, d0_3, 1]"
  by (simp_all add: compute_all_stats_def rounding_tabs_def compute_schedule_with_def
      default_cue_def schedule_step_with_def example_zero_sums example_sums example_order
      max_absorb1 max_absorb2)

lemma absorbing_tabs_stats:
  "map start_time (fst (compute_all_stats absorbing_tabs)) = [0, d2_53]"
  "map duration (fst (compute_all_stats absorbing_tabs)) = [d2_53, 1]"
  by (simp_all add: compute_all_stats_def absorbing_tabs_def compute_schedule_with_def
      default_cue_def schedule_step_with_def example_zero_sums example_sums example_order
      max_absorb1 max_absorb2)

lemma example_tabs_room_ends:
  "room_end_of (snd (example_tabs ! 0)) = 10"
  "room_end_of (snd (rounding_tabs ! 1)) = 1 / 2"
  "room_end_of (snd (absorbing_tabs ! 1)) = 1"
  by (simp_all add: room_end_of_def example_tabs_def rounding_tabs_def absorbing_tabs_def
      compute_schedule_with_def default_cue_def schedule_step_with_def example_zero_sums
      example_sums example_order max_absorb1 max_absorb2)

lemma example_tabs_offsets:
  "room_offset example_tabs 0 = 0"
  "room_offset rounding_tabs 1 = d0_1"
  "room_offset rounding_tabs 2 = d0_6"
  "room_offset absorbing_tabs 1 = d2_53"
  by (simp_all add: room_offset_def room_end_of_def example_tabs_def rounding_tabs_def
      absorbing_tabs_def compute_schedule_with_def default_cue_def schedule_step_with_def
      example_zero_sums example_sums example_order max_absorb1 max_absorb2 numeral_2_eq_2)

lemma example_tabs_entries:
  "map start_time (room_entries example_tabs 0) = [0, 10]"
  "map start_time (room_entries rounding_tabs 0) = [0]"
  "map start_time (room_entries rounding_tabs 1) = [d0_30000000000000004]"
  "map duration (room_entries rounding_tabs 1) = [d0_3]"
  "map start_time (room_entries rounding_tabs 2) = [d0_6]"
  "map duration (room_entries rounding_tabs 2) = [1]"
  "map start_time (room_entries absorbing_tabs 1) = [d2_53]"
  "map duration (room_entries absorbing_tabs 1) = [1]"
proof -
  have t: "take n (map f xs) = map f (take n xs)" "drop n (map f xs) = map f (drop n xs)"
    for n and f :: "GlobalTimelineItem \<Rightarrow> real" and xs
    by (simp_all add: take_map drop_map)
  show "map start_time (room_entries example_tabs 0) = [0, 10]"
    unfolding room_entries_def t [symmetric] example_tabs_stats
    by (simp add: example_tabs_def)
  show "map start_time (room_entries rounding_tabs 0) = [0]"
    unfolding room_entries_def t [symmetric] rounding_tabs_stats
    by (simp add: rounding_tabs_def)
  show "map start_time (room_entries rounding_tabs 1) = [d0_30000000000000004]"
    unfolding room_entries_def t [symmetric] rounding_tabs_stats
    by (simp add: rounding_tabs_def)
  show "map duration (room_entries rounding_tabs 1) = [d0_3]"
    unfolding room_entries_def t [symmetric] rounding_tabs_stats
    by (simp add: rounding_tabs_def)
  show "map start_time (room_entries rounding_tabs 2) = [d0_6]"
    unfolding room_entries_def t [symmetric] rounding_tabs_stats
    by (simp add: rounding_tabs_def)
  show "map duration (room_entries rounding_tabs 2) = [1]"
    unfolding room_entries_def t [symmetric] rounding_tabs_stats
    by (simp add: rounding_tabs_def)
  show "map start_time (room_entries absorbing_tabs 1) = [d2_53]"
    unfolding room_entries_def t [symmetric] absorbing_tabs_stats
    by (simp add: absorbing_tabs_def)
  show "map duration (room_entries absorbing_tabs 1) = [1]"
    unfolding room_entries_def t [symmetric] absorbing_tabs_stats
    by (simp add: absorbing_tabs_def)
qed

lemma map_singleton_nth: "map f xs = [v] \<Longrightarrow> f (xs ! 0) = v \<and> xs ! 0 \<in> set xs"
  by (cases xs) simp_all

lemma map_pair_nth: "map f xs = [u, v] \<Longrightarrow> f (xs ! 1) = v"
  by (cases xs; cases "tl xs") auto

subsection \<open>Rooms follow one another\<close>

text \<open>
  Claim C4, amended. On floats, every entry emitted for room \<open>N\<close> starts no earlier than
  the sum of the room ends of the rooms before \<open>N\<close>, and no later than that sum plus the
  room end of room \<open>N\<close>; and every entry of an earlier room starts no later than that sum,
  so no later than any entry of room \<open>N\<close>.
\<close>

theorem global_timeline_rooms:
  assumes "double_tabs room_tabs" and "N < length room_tabs"
    and "it \<in> set (room_entries room_tabs N)"
  shows "room_offset room_tabs N \<le> start_time it
     \<and> start_time it
          \<le> double_add (room_offset room_tabs N) (room_end_of (snd (room_tabs ! N)))
     \<and> (\<forall>M it'. M < N \<and> it' \<in> set (room_entries room_tabs M) \<longrightarrow>
          start_time it' \<le> room_offset room_tabs N)"
proof -
  have bounds: "room_offset room_tabs K \<le> start_time e
      \<and> start_time e \<le> room_offset room_tabs (Suc K)"
    if K: "K < length room_tabs" and e: "e \<in> set (room_entries room_tabs K)" for K e
  proof -
    from e have "e \<in> set (entries_of (fst (room_tabs ! K)) (room_offset room_tabs K)
        (snd (room_tabs ! K)))"
      by (simp only: room_entries_eq [OF assms(1) K])
    from entries_of_bounds [OF double_tabs_nth [OF assms(1) K] room_offset_doubles [OF assms(1)]
        this]
    show ?thesis by (simp only: room_offset_Suc [OF K] simp_thms)
  qed
  have earlier: "start_time it' \<le> room_offset room_tabs N"
    if "M < N" and "it' \<in> set (room_entries room_tabs M)" for M it'
  proof -
    from that(1) assms(2) have M: "M < length room_tabs" by simp
    from bounds [OF M that(2)] have "start_time it' \<le> room_offset room_tabs (Suc M)" by simp
    also from that(1) have "\<dots> \<le> room_offset room_tabs N"
      by (intro room_offset_mono [OF assms(1)]) simp
    finally show ?thesis .
  qed
  from bounds [OF assms(2,3)] have "room_offset room_tabs N \<le> start_time it"
    and "start_time it \<le> double_add (room_offset room_tabs N) (room_end_of (snd (room_tabs ! N)))"
    by (simp_all only: room_offset_Suc [OF assms(2)])
  with earlier show ?thesis by blast
qed

theorem global_timeline_rooms_witness:
  "double_tabs rounding_tabs \<and> 1 < length rounding_tabs
     \<and> room_entries rounding_tabs 1 ! 0 \<in> set (room_entries rounding_tabs 1)
     \<and> room_entries rounding_tabs 0 ! 0 \<in> set (room_entries rounding_tabs 0)
     \<and> start_time (room_entries rounding_tabs 1 ! 0) = d0_30000000000000004
     \<and> room_offset rounding_tabs 1 = d0_1
     \<and> double_add (room_offset rounding_tabs 1) (room_end_of (snd (rounding_tabs ! 1))) = d0_6
     \<and> room_offset rounding_tabs 1 \<le> start_time (room_entries rounding_tabs 1 ! 0)
     \<and> start_time (room_entries rounding_tabs 1 ! 0)
          \<le> double_add (room_offset rounding_tabs 1) (room_end_of (snd (rounding_tabs ! 1)))
     \<and> start_time (room_entries rounding_tabs 0 ! 0) \<le> room_offset rounding_tabs 1"
proof -
  let ?it = "room_entries rounding_tabs 1 ! 0"
  let ?it' = "room_entries rounding_tabs 0 ! 0"
  have h2: "1 < length rounding_tabs" by (simp add: rounding_tabs_def)
  from map_singleton_nth [OF example_tabs_entries(3)]
  have st: "start_time ?it = d0_30000000000000004"
    and h3: "?it \<in> set (room_entries rounding_tabs 1)" by simp_all
  from map_singleton_nth [OF example_tabs_entries(2)]
  have h4: "?it' \<in> set (room_entries rounding_tabs 0)" by simp
  have bound: "double_add (room_offset rounding_tabs 1) (room_end_of (snd (rounding_tabs ! 1)))
      = d0_6"
    by (simp only: example_tabs_offsets example_tabs_room_ends example_sums)
  from global_timeline_rooms [OF rounding_tabs_double h2 h3] h4
  have "room_offset rounding_tabs 1 \<le> start_time ?it"
    and "start_time ?it
      \<le> double_add (room_offset rounding_tabs 1) (room_end_of (snd (rounding_tabs ! 1)))"
    and "start_time ?it' \<le> room_offset rounding_tabs 1"
    by blast+
  with rounding_tabs_double h2 h3 h4 st bound example_tabs_offsets(2) show ?thesis by blast
qed

text \<open>
  The start need not be strictly below the bound, and rooms can overlap. In the example
  show the first room has room end 10, and its second cue, of duration 0, starts at 10.
  After a room that ends at \<open>2^53\<close> s, a cue of 1 s that starts its room starts at
  \<open>2^53\<close>, and the bound \<open>2^53 + 1\<close> rounds to \<open>2^53\<close> as well. With cues of 0.1 s, then
  0.3 s at 0.2 s, then 1 s, each in a room of its own, the second entry runs from
  0.30000000000000004 to 0.6000000000000001 in the view and the third starts at 0.6.
\<close>

theorem global_timeline_rooms_counterexample:
  "(room_end_of (snd (example_tabs ! 0)) = 10
      \<and> room_offset example_tabs 0 = 0
      \<and> start_time (room_entries example_tabs 0 ! 1) = 10
      \<and> \<not> start_time (room_entries example_tabs 0 ! 1)
             < double_add (room_offset example_tabs 0) (room_end_of (snd (example_tabs ! 0))))
   \<and> (room_end_of (snd (absorbing_tabs ! 1)) = 1
      \<and> duration (room_entries absorbing_tabs 1 ! 0) = 1
      \<and> room_offset absorbing_tabs 1 = d2_53
      \<and> start_time (room_entries absorbing_tabs 1 ! 0) = d2_53
      \<and> \<not> start_time (room_entries absorbing_tabs 1 ! 0)
             < double_add (room_offset absorbing_tabs 1) (room_end_of (snd (absorbing_tabs ! 1))))
   \<and> (view_interval (room_entries rounding_tabs 1 ! 0)
          = (d0_30000000000000004, d0_6000000000000001)
      \<and> view_interval (room_entries rounding_tabs 2 ! 0) = (d0_6, d1_6)
      \<and> overlaps (view_interval (room_entries rounding_tabs 1 ! 0))
           (view_interval (room_entries rounding_tabs 2 ! 0)))"
proof -
  have zero: "start_time (room_entries example_tabs 0 ! 1) = 10"
    using map_pair_nth [OF example_tabs_entries(1)] .
  have "double_add (room_offset example_tabs 0) (room_end_of (snd (example_tabs ! 0))) = 10"
    by (simp only: example_tabs_offsets example_tabs_room_ends example_zero_sums)
  with zero have part1: "\<not> start_time (room_entries example_tabs 0 ! 1)
      < double_add (room_offset example_tabs 0) (room_end_of (snd (example_tabs ! 0)))"
    by simp
  have absorbed: "start_time (room_entries absorbing_tabs 1 ! 0) = d2_53"
    and dur: "duration (room_entries absorbing_tabs 1 ! 0) = 1"
    using map_singleton_nth [OF example_tabs_entries(7)]
      map_singleton_nth [OF example_tabs_entries(8)] by simp_all
  have "double_add (room_offset absorbing_tabs 1) (room_end_of (snd (absorbing_tabs ! 1)))
      = d2_53"
    by (simp only: example_tabs_offsets example_tabs_room_ends example_sums)
  with absorbed have part2: "\<not> start_time (room_entries absorbing_tabs 1 ! 0)
      < double_add (room_offset absorbing_tabs 1) (room_end_of (snd (absorbing_tabs ! 1)))"
    by simp
  have b: "view_interval (room_entries rounding_tabs 1 ! 0)
      = (d0_30000000000000004, d0_6000000000000001)"
    using map_singleton_nth [OF example_tabs_entries(3)]
      map_singleton_nth [OF example_tabs_entries(4)]
    by (simp add: view_interval_def example_order max_absorb1 example_sums)
  have c: "view_interval (room_entries rounding_tabs 2 ! 0) = (d0_6, d1_6)"
    using map_singleton_nth [OF example_tabs_entries(5)]
      map_singleton_nth [OF example_tabs_entries(6)]
    by (simp add: view_interval_def example_sums)
  have "overlaps (view_interval (room_entries rounding_tabs 1 ! 0))
      (view_interval (room_entries rounding_tabs 2 ! 0))"
    unfolding b c overlaps_def using example_order by simp
  with part1 part2 zero absorbed dur b c example_tabs_room_ends(1,3) example_tabs_offsets(1,4)
  show ?thesis by blast
qed

section \<open>Properties of serialization\<close>

subsection \<open>Enumerations and dictionaries\<close>

lemma CueType_of_value [simp]: "CueType_of (PyStr (CueType_value m)) = Inr m"
  by (cases m) (simp_all add: CueType_of_def enum_of_def)

lemma TriggerType_of_value [simp]: "TriggerType_of (PyStr (TriggerType_value m)) = Inr m"
  by (cases m) (simp_all add: TriggerType_of_def enum_of_def)

lemma PlayType_of_value [simp]: "PlayType_of (PyStr (PlayType_value m)) = Inr m"
  by (cases m) (simp_all add: PlayType_of_def enum_of_def)

lemma StartMode_of_value [simp]: "StartMode_of (PyStr (StartMode_value m)) = Inr m"
  by (cases m) (simp_all add: StartMode_of_def enum_of_def)

lemma CueType_value_nonempty [simp]: "CueType_value m \<noteq> []"
  by (cases m) simp_all

lemma enum_of_error: "enum_of value_of members v = Inl e \<Longrightarrow> e = ValueError"
  by (auto simp add: enum_of_def split: pyval.splits option.splits)

lemma MediaCue_to_dict_get:
  "get (MediaCue_to_dict c) ''cue_type'' = PyStr (CueType_value (cue_type c))"
  "get (MediaCue_to_dict c) ''dependency_name'' =
     (case dependency_name c of None \<Rightarrow> PyNone | Some s \<Rightarrow> PyStr s)"
  "get_default (MediaCue_to_dict c) ''trigger_type'' d = PyStr (TriggerType_value (trigger_type c))"
  "get_default (MediaCue_to_dict c) ''play_type'' d = PyStr (PlayType_value (play_type c))"
  "get_default (MediaCue_to_dict c) ''start_mode'' d = PyStr (StartMode_value (start_mode c))"
  "get_default (MediaCue_to_dict c) ''start_time_s'' d = PyFloat (start_time_s c)"
  "get_default (MediaCue_to_dict c) ''duration_s'' d = PyFloat (duration_s c)"
  "get_default (MediaCue_to_dict c) ''name'' d = PyStr (name c)"
  "get_default (MediaCue_to_dict c) ''notes'' d = PyStr (cue_notes c)"
  by (simp_all add: MediaCue_to_dict_def get_def get_default_def)

lemma dependency_of_to_dict:
  "dependency_of (case dep of None \<Rightarrow> PyNone | Some s \<Rightarrow> PyStr s) =
     Inr (if dep = Some [] then None else dep)"
  by (cases dep) (simp_all add: dependency_of_def)

lemma MediaCue_round_trip:
  "MediaCue_from_dict str_to_float (MediaCue_to_dict c) = Inr (normalised c)"
  by (simp add: MediaCue_from_dict_def type_value_of_def MediaCue_to_dict_get
      dependency_of_to_dict normalised_def)

lemma collect_round_trip:
  "collect (cue_from str_to_float) (map (\<lambda>c. PyDict (MediaCue_to_dict c)) cs) =
     Inr (map normalised cs)"
  by (induction cs) (simp_all add: cue_from_def MediaCue_round_trip)

lemma RoomPlan_round_trip:
  "RoomPlan_from_dict str_to_float (RoomPlan_to_dict r) =
     Inr (r\<lparr>plan_cues := map normalised (plan_cues r)\<rparr>)"
  by (simp add: RoomPlan_from_dict_def RoomPlan_to_dict_def get_default_def collect_round_trip)

lemma collect_rooms_round_trip:
  "collect (RoomPlan_from_dict str_to_float) (map RoomPlan_to_dict rs) =
     Inr (map (\<lambda>r. r\<lparr>plan_cues := map normalised (plan_cues r)\<rparr>) rs)"
  by (induction rs) (simp_all add: RoomPlan_round_trip)

lemma ShowPlan_round_trip:
  "ShowPlan_from_dict str_to_float (ShowPlan_to_dict p) =
     Inr (p\<lparr>rooms := map (\<lambda>r. r\<lparr>plan_cues := map normalised (plan_cues r)\<rparr>) (rooms p)\<rparr>)"
  by (simp add: ShowPlan_from_dict_def ShowPlan_to_dict_def get_default_def
      collect_rooms_round_trip)

lemma normalised_id: "dependency_name c \<noteq> Some [] \<Longrightarrow> normalised c = c"
  by (simp add: normalised_def)

subsection \<open>Round trip\<close>

text \<open>
  Claim C7, amended. Serializing a cue with \<^verbatim>\<open>to_dict\<close> and deserializing the result with
  \<^verbatim>\<open>from_dict\<close> raises nothing and yields the cue with every field as it was, except that
  an empty dependency name comes back as \<^verbatim>\<open>None\<close>; the same holds for every cue of a
  \<^verbatim>\<open>RoomPlan\<close>, whose name comes back as it was. The cue comes back equal to the original
  exactly when its dependency name is not the empty string.
\<close>

theorem to_dict_from_dict:
  "MediaCue_from_dict str_to_float (MediaCue_to_dict c) =
     Inr (c\<lparr>dependency_name :=
            (if dependency_name c = Some [] then None else dependency_name c)\<rparr>)
   \<and> RoomPlan_from_dict str_to_float (RoomPlan_to_dict r) =
     Inr (r\<lparr>plan_cues := map normalised (plan_cues r)\<rparr>)
   \<and> (if dependency_name c = Some [] then normalised c \<noteq> c else normalised c = c)"
  using MediaCue_round_trip [of str_to_float c] RoomPlan_round_trip [of str_to_float r]
  by (simp add: normalised_def) (cases c, simp)

text \<open>
  A cue whose dependency name is the empty string does not come back equal:
  \<^verbatim>\<open>data.get("dependency_name") or None\<close> turns the empty string into \<^verbatim>\<open>None\<close>.
\<close>

theorem to_dict_from_dict_counterexample:
  "MediaCue_from_dict no_str_to_float
       (MediaCue_to_dict ((default_cue ''a'')\<lparr>dependency_name := Some []\<rparr>))
     \<noteq> Inr ((default_cue ''a'')\<lparr>dependency_name := Some []\<rparr>)"
  by (simp add: MediaCue_round_trip normalised_def default_cue_def)

subsection \<open>Unrecognised enumeration values\<close>

lemma enum_of_Inr:
  "enum_of value_of members v = Inr m \<Longrightarrow> v = PyStr (value_of m)"
  by (auto simp add: enum_of_def split: pyval.splits option.splits dest: find_Some_iff [THEN iffD1])

lemma enum_of_unrecognised:
  assumes "\<And>m. v \<noteq> PyStr (value_of m)"
  shows "enum_of value_of members v = Inl ValueError"
proof (cases "enum_of value_of members v")
  case (Inl e)
  with enum_of_error [OF Inl] show ?thesis by simp
next
  case (Inr m)
  from enum_of_Inr [OF this] assms show ?thesis by simp
qed

lemma CueType_of_error: "CueType_of v = Inl e \<Longrightarrow> e = ValueError"
  unfolding CueType_of_def by (rule enum_of_error)

lemma TriggerType_of_error: "TriggerType_of v = Inl e \<Longrightarrow> e = ValueError"
  unfolding TriggerType_of_def by (rule enum_of_error)

lemma PlayType_of_error: "PlayType_of v = Inl e \<Longrightarrow> e = ValueError"
  unfolding PlayType_of_def by (rule enum_of_error)

lemma StartMode_of_error: "StartMode_of v = Inl e \<Longrightarrow> e = ValueError"
  unfolding StartMode_of_def by (rule enum_of_error)

lemma get_default_Some: "map_of data key = Some v \<Longrightarrow> get_default data key d = v"
  by (simp add: get_default_def)

lemma CueType_of_unrecognised:
  "\<forall>m. v \<noteq> PyStr (CueType_value m) \<Longrightarrow> CueType_of v = Inl ValueError"
  unfolding CueType_of_def by (rule enum_of_unrecognised) simp

lemma TriggerType_of_unrecognised:
  "\<forall>m. v \<noteq> PyStr (TriggerType_value m) \<Longrightarrow> TriggerType_of v = Inl ValueError"
  unfolding TriggerType_of_def by (rule enum_of_unrecognised) simp

lemma PlayType_of_unrecognised:
  "\<forall>m. v \<noteq> PyStr (PlayType_value m) \<Longrightarrow> PlayType_of v = Inl ValueError"
  unfolding PlayType_of_def by (rule enum_of_unrecognised) simp

lemma StartMode_of_unrecognised:
  "\<forall>m. v \<noteq> PyStr (StartMode_value m) \<Longrightarrow> StartMode_of v = Inl ValueError"
  unfolding StartMode_of_def by (rule enum_of_unrecognised) simp

lemma MediaCue_from_dict_bad_enum:
  assumes "(\<forall>m. type_value_of data \<noteq> PyStr (CueType_value m))
     \<or> (\<exists>v. map_of data ''trigger_type'' = Some v \<and> (\<forall>m. v \<noteq> PyStr (TriggerType_value m)))
     \<or> (\<exists>v. map_of data ''play_type'' = Some v \<and> (\<forall>m. v \<noteq> PyStr (PlayType_value m)))
     \<or> (\<exists>v. map_of data ''start_mode'' = Some v \<and> (\<forall>m. v \<noteq> PyStr (StartMode_value m)))"
  shows "MediaCue_from_dict str_to_float data = Inl ValueError"
proof -
  let ?ct = "CueType_of (type_value_of data)"
  let ?tt = "TriggerType_of (get_default data ''trigger_type'' (PyStr (TriggerType_value TIMELINE)))"
  let ?pt = "PlayType_of (get_default data ''play_type'' (PyStr (PlayType_value PLAY_ONCE)))"
  let ?sm = "StartMode_of (get_default data ''start_mode'' (PyStr (StartMode_value AT_TIME)))"
  from assms consider (ct) "?ct = Inl ValueError" | (tt) "?tt = Inl ValueError"
    | (pt) "?pt = Inl ValueError" | (sm) "?sm = Inl ValueError"
  proof (elim disjE exE conjE)
    assume "\<forall>m. type_value_of data \<noteq> PyStr (CueType_value m)"
    then have "?ct = Inl ValueError" by (rule CueType_of_unrecognised)
    then show ?thesis by (rule that(1))
  next
    fix v assume "map_of data ''trigger_type'' = Some v" "\<forall>m. v \<noteq> PyStr (TriggerType_value m)"
    then have "?tt = Inl ValueError"
      by (simp add: get_default_Some TriggerType_of_unrecognised)
    then show ?thesis by (rule that(2))
  next
    fix v assume "map_of data ''play_type'' = Some v" "\<forall>m. v \<noteq> PyStr (PlayType_value m)"
    then have "?pt = Inl ValueError"
      by (simp add: get_default_Some PlayType_of_unrecognised)
    then show ?thesis by (rule that(3))
  next
    fix v assume "map_of data ''start_mode'' = Some v" "\<forall>m. v \<noteq> PyStr (StartMode_value m)"
    then have "?sm = Inl ValueError"
      by (simp add: get_default_Some StartMode_of_unrecognised)
    then show ?thesis by (rule that(4))
  qed
  then show ?thesis
  proof cases
    case ct
    then show ?thesis by (simp add: MediaCue_from_dict_def)
  next
    case tt
    then show ?thesis
      by (cases ?ct) (auto simp add: MediaCue_from_dict_def dest: CueType_of_error)
  next
    case pt
    then show ?thesis
      by (cases ?ct; cases ?tt)
        (auto simp add: MediaCue_from_dict_def dest: CueType_of_error TriggerType_of_error)
  next
    case sm
    then show ?thesis
      by (cases ?ct; cases ?tt; cases ?pt)
        (auto simp add: MediaCue_from_dict_def
          dest: CueType_of_error TriggerType_of_error PlayType_of_error)
  qed
qed

lemma collect_raises:
  assumes "x \<in> set xs" and "f x = Inl e" and "e \<noteq> IllTyped"
  shows "\<exists>e'. e' \<noteq> IllTyped \<and> collect f xs = Inl e'"
  using assms(1)
proof (induction xs)
  case Nil
  then show ?case by simp
next
  case (Cons y ys)
  show ?case
  proof (cases "x = y")
    case True
    with assms(2,3) show ?thesis by simp
  next
    case False
    with Cons obtain e' where e': "e' \<noteq> IllTyped" "collect f ys = Inl e'" by auto
    then show ?thesis by (cases "f y") simp_all
  qed
qed

lemmas from_dict_eval = MediaCue_from_dict_def type_value_of_def get_def get_default_def
  CueType_of_def TriggerType_of_def PlayType_of_def StartMode_of_def enum_of_def
  dependency_of_def default_cue_def

lemma RoomPlan_from_dict_raises:
  assumes "map_of room ''cues'' = Some (PyList cs)" and "c \<in> set cs"
    and "cue_from str_to_float c = Inl e" and "e \<noteq> IllTyped"
  shows "\<exists>e'. e' \<noteq> IllTyped \<and> RoomPlan_from_dict str_to_float (PyDict room) = Inl e'"
proof -
  from collect_raises [of c cs "cue_from str_to_float" e, OF assms(2-4)]
  obtain e' where "e' \<noteq> IllTyped"
    and "collect (cue_from str_to_float) cs = Inl e'" by blast
  with assms(1) show ?thesis
    by (simp add: RoomPlan_from_dict_def get_default_Some)
qed

lemma ShowPlan_from_dict_raises:
  assumes "map_of doc ''rooms'' = Some (PyList rs)" and "r \<in> set rs"
    and "RoomPlan_from_dict str_to_float r = Inl e" and "e \<noteq> IllTyped"
  shows "\<exists>e'. e' \<noteq> IllTyped \<and> ShowPlan_from_dict str_to_float (PyDict doc) = Inl e'"
proof -
  from collect_raises [of r rs "RoomPlan_from_dict str_to_float" e, OF assms(2-4)]
  obtain e' where "e' \<noteq> IllTyped"
    and "collect (RoomPlan_from_dict str_to_float) rs = Inl e'" by blast
  with assms(1) show ?thesis
    by (simp add: ShowPlan_from_dict_def get_default_Some)
qed

text \<open>
  Claim C8, amended. Let a cue dictionary hold, under \<^verbatim>\<open>trigger_type\<close>, \<^verbatim>\<open>play_type\<close> or
  \<^verbatim>\<open>start_mode\<close>, a value that is no display string of the enumeration, or under
  \<^verbatim>\<open>cue_type\<close> such a value that Python takes as true. Then \<^verbatim>\<open>MediaCue.from_dict\<close> raises
  \<^verbatim>\<open>ValueError\<close>. When the dictionary is among the cues of a room of a document,
  \<^verbatim>\<open>RoomPlan.from_dict\<close> and \<^verbatim>\<open>ShowPlan.from_dict\<close> raise an exception (that of the first
  cue in document order that raises one), and \<^verbatim>\<open>_open_file\<close> reports it and leaves every
  room tab as it was.
\<close>

theorem unrecognised_enum_aborts_load:
  assumes bad: "(truthy (get data ''cue_type'')
        \<and> (\<forall>m. get data ''cue_type'' \<noteq> PyStr (CueType_value m)))
     \<or> (\<exists>v. map_of data ''trigger_type'' = Some v \<and> (\<forall>m. v \<noteq> PyStr (TriggerType_value m)))
     \<or> (\<exists>v. map_of data ''play_type'' = Some v \<and> (\<forall>m. v \<noteq> PyStr (PlayType_value m)))
     \<or> (\<exists>v. map_of data ''start_mode'' = Some v \<and> (\<forall>m. v \<noteq> PyStr (StartMode_value m)))"
    and doc: "map_of doc ''rooms'' = Some (PyList rs)" "PyDict room \<in> set rs"
    and room: "map_of room ''cues'' = Some (PyList cs)" "PyDict data \<in> set cs"
  shows "MediaCue_from_dict str_to_float data = Inl ValueError
     \<and> (\<exists>e. e \<noteq> IllTyped \<and> RoomPlan_from_dict str_to_float (PyDict room) = Inl e)
     \<and> (\<exists>e. e \<noteq> IllTyped \<and> ShowPlan_from_dict str_to_float (PyDict doc) = Inl e
            \<and> open_file str_to_float (PyDict doc) room_tabs = (room_tabs, Some e))"
proof -
  from bad have "(\<forall>m. type_value_of data \<noteq> PyStr (CueType_value m))
     \<or> (\<exists>v. map_of data ''trigger_type'' = Some v \<and> (\<forall>m. v \<noteq> PyStr (TriggerType_value m)))
     \<or> (\<exists>v. map_of data ''play_type'' = Some v \<and> (\<forall>m. v \<noteq> PyStr (PlayType_value m)))
     \<or> (\<exists>v. map_of data ''start_mode'' = Some v \<and> (\<forall>m. v \<noteq> PyStr (StartMode_value m)))"
    by (auto simp add: type_value_of_def)
  then have cue: "MediaCue_from_dict str_to_float data = Inl ValueError"
    by (rule MediaCue_from_dict_bad_enum)
  then have "cue_from str_to_float (PyDict data) = Inl ValueError"
    by (simp add: cue_from_def)
  from RoomPlan_from_dict_raises [OF room this] obtain e
    where e: "e \<noteq> IllTyped" "RoomPlan_from_dict str_to_float (PyDict room) = Inl e" by auto
  from ShowPlan_from_dict_raises [OF doc e(2) e(1)] obtain e'
    where e': "e' \<noteq> IllTyped" "ShowPlan_from_dict str_to_float (PyDict doc) = Inl e'" by auto
  from e'(2) have "open_file str_to_float (PyDict doc) room_tabs = (room_tabs, Some e')"
    by (simp add: open_file_def)
  with cue e e' show ?thesis by blast
qed

theorem unrecognised_enum_aborts_load_witness:
  "map_of [(''name'', PyStr ''door''), (''trigger_type'', PyStr ''Motion'')] ''trigger_type''
       = Some (PyStr ''Motion'')
     \<and> TriggerType_of (PyStr ''Motion'') = Inl ValueError
     \<and> MediaCue_from_dict no_str_to_float
          [(''name'', PyStr ''door''), (''trigger_type'', PyStr ''Motion'')] = Inl ValueError
     \<and> (\<exists>e. e \<noteq> IllTyped \<and> ShowPlan_from_dict no_str_to_float example_document = Inl e
            \<and> open_file no_str_to_float example_document example_tabs = (example_tabs, Some e))"
proof -
  let ?data = "[(''name'', PyStr ''door''), (''trigger_type'', PyStr ''Motion'')]"
  let ?room = "[(''name'', PyStr ''Reception''),
      (''cues'', PyList [PyDict [(''name'', PyStr ''intro''), (''duration_s'', PyInt 10)],
         PyDict ?data])]"
  have unrec: "\<forall>m. PyStr ''Motion'' \<noteq> PyStr (TriggerType_value m)"
  proof
    fix m show "PyStr ''Motion'' \<noteq> PyStr (TriggerType_value m)" by (cases m) simp_all
  qed
  have key: "map_of ?data ''trigger_type'' = Some (PyStr ''Motion'')" by simp
  from key unrec have bad: "(truthy (get ?data ''cue_type'')
        \<and> (\<forall>m. get ?data ''cue_type'' \<noteq> PyStr (CueType_value m)))
     \<or> (\<exists>v. map_of ?data ''trigger_type'' = Some v \<and> (\<forall>m. v \<noteq> PyStr (TriggerType_value m)))
     \<or> (\<exists>v. map_of ?data ''play_type'' = Some v \<and> (\<forall>m. v \<noteq> PyStr (PlayType_value m)))
     \<or> (\<exists>v. map_of ?data ''start_mode'' = Some v \<and> (\<forall>m. v \<noteq> PyStr (StartMode_value m)))"
    by blast
  have doc: "map_of [(''rooms'', PyList [PyDict ?room])] ''rooms'' = Some (PyList [PyDict ?room])"
    "PyDict ?room \<in> set [PyDict ?room]"
    by simp_all
  have room: "map_of ?room ''cues''
      = Some (PyList [PyDict [(''name'', PyStr ''intro''), (''duration_s'', PyInt 10)], PyDict ?data])"
    "PyDict ?data \<in> set [PyDict [(''name'', PyStr ''intro''), (''duration_s'', PyInt 10)], PyDict ?data]"
    by simp_all
  from unrec have "TriggerType_of (PyStr ''Motion'') = Inl ValueError"
    by (rule TriggerType_of_unrecognised)
  with unrecognised_enum_aborts_load [OF bad doc room, of no_str_to_float example_tabs] key
  show ?thesis by (simp add: example_document_def)
qed

text \<open>
  A value under \<^verbatim>\<open>cue_type\<close> that Python takes as false is not rejected, although it is
  no display string: the empty string is passed over by \<^verbatim>\<open>or\<close>, and the cue is built
  with the default type \<^verbatim>\<open>Audio\<close>.
\<close>

theorem unrecognised_enum_aborts_load_counterexample:
  "CueType_of (PyStr []) = Inl ValueError
     \<and> MediaCue_from_dict no_str_to_float [(''name'', PyStr ''a''), (''cue_type'', PyStr [])]
          = Inr (default_cue ''a'')"
  by (simp add: from_dict_eval)

subsection \<open>The key of the cue type\<close>

lemma CueType_of_Inr: "CueType_of v = Inr m \<Longrightarrow> v = PyStr (CueType_value m)"
  unfolding CueType_of_def by (rule enum_of_Inr)

lemma get_absent: "map_of data key = None \<Longrightarrow> \<not> truthy (get data key)"
  by (simp add: get_def)

text \<open>
  Claim C9, amended. The value from which the cue type is read is that of \<^verbatim>\<open>cue_type\<close>
  when Python takes it as true, else that of \<^verbatim>\<open>media_type\<close> when Python takes it as true,
  else \<^verbatim>\<open>"Audio"\<close>: when \<^verbatim>\<open>from_dict\<close> returns a cue, that value is the display string
  of the cue's type, and when that value is no display string, \<^verbatim>\<open>from_dict\<close> raises
  \<^verbatim>\<open>ValueError\<close>. An absent key reads as \<^verbatim>\<open>None\<close>, which Python takes as false.
\<close>

theorem cue_type_key_fallback:
  "(MediaCue_from_dict str_to_float data = Inr c \<longrightarrow>
      (if truthy (get data ''cue_type'') then get data ''cue_type''
       else if truthy (get data ''media_type'') then get data ''media_type''
       else PyStr ''Audio'') = PyStr (CueType_value (cue_type c)))
   \<and> ((\<forall>m. (if truthy (get data ''cue_type'') then get data ''cue_type''
             else if truthy (get data ''media_type'') then get data ''media_type''
             else PyStr ''Audio'') \<noteq> PyStr (CueType_value m)) \<longrightarrow>
      MediaCue_from_dict str_to_float data = Inl ValueError)
   \<and> (map_of data ''cue_type'' = None \<longrightarrow> \<not> truthy (get data ''cue_type''))
   \<and> (map_of data ''media_type'' = None \<longrightarrow> \<not> truthy (get data ''media_type''))"
proof (intro conjI impI)
  assume ok: "MediaCue_from_dict str_to_float data = Inr c"
  then obtain ct where ct: "CueType_of (type_value_of data) = Inr ct"
    by (cases "CueType_of (type_value_of data)") (simp_all add: MediaCue_from_dict_def)
  with ok have "cue_type c = ct"
    by (auto simp add: MediaCue_from_dict_def split: sum.splits)
  with CueType_of_Inr [OF ct]
  show "(if truthy (get data ''cue_type'') then get data ''cue_type''
       else if truthy (get data ''media_type'') then get data ''media_type''
       else PyStr ''Audio'') = PyStr (CueType_value (cue_type c))"
    by (auto simp add: type_value_of_def split: if_splits)
next
  assume "\<forall>m. (if truthy (get data ''cue_type'') then get data ''cue_type''
             else if truthy (get data ''media_type'') then get data ''media_type''
             else PyStr ''Audio'') \<noteq> PyStr (CueType_value m)"
  then have "\<forall>m. type_value_of data \<noteq> PyStr (CueType_value m)"
    by (auto simp add: type_value_of_def split: if_splits)
  then show "MediaCue_from_dict str_to_float data = Inl ValueError"
    by (intro MediaCue_from_dict_bad_enum disjI1)
next
  assume "map_of data ''cue_type'' = None"
  then show "\<not> truthy (get data ''cue_type'')" by (rule get_absent)
next
  assume "map_of data ''media_type'' = None"
  then show "\<not> truthy (get data ''media_type'')" by (rule get_absent)
qed

theorem cue_type_key_fallback_witness:
  "MediaCue_from_dict no_str_to_float [(''name'', PyStr ''lamp''), (''media_type'', PyStr ''Lighting'')]
       = Inr ((default_cue ''lamp'')\<lparr>cue_type := LIGHTING\<rparr>)
     \<and> map_of [(''name'', PyStr ''lamp''), (''media_type'', PyStr ''Lighting'')] ''cue_type'' = None
     \<and> \<not> truthy (get [(''name'', PyStr ''lamp''), (''media_type'', PyStr ''Lighting'')] ''cue_type'')
     \<and> PyStr ''Lighting'' = PyStr (CueType_value (cue_type ((default_cue ''lamp'')\<lparr>cue_type := LIGHTING\<rparr>)))"
proof -
  let ?data = "[(''name'', PyStr ''lamp''), (''media_type'', PyStr ''Lighting'')]"
  let ?c = "(default_cue ''lamp'')\<lparr>cue_type := LIGHTING\<rparr>"
  have ok: "MediaCue_from_dict no_str_to_float ?data = Inr ?c"
    by (simp add: from_dict_eval)
  have absent: "map_of ?data ''cue_type'' = None" by simp
  from cue_type_key_fallback [of no_str_to_float ?data ?c] ok absent
  have "\<not> truthy (get ?data ''cue_type'')"
    and "(if truthy (get ?data ''cue_type'') then get ?data ''cue_type''
       else if truthy (get ?data ''media_type'') then get ?data ''media_type''
       else PyStr ''Audio'') = PyStr (CueType_value (cue_type ?c))"
    by blast+
  moreover from this have "PyStr ''Lighting'' = PyStr (CueType_value (cue_type ?c))"
    by (simp add: get_def)
  ultimately show ?thesis using ok absent by blast
qed

text \<open>
  A key \<^verbatim>\<open>cue_type\<close> that is present with the empty string is passed over: the type is
  read from \<^verbatim>\<open>media_type\<close>.
\<close>

theorem cue_type_key_fallback_counterexample:
  "map_of [(''cue_type'', PyStr []), (''media_type'', PyStr ''TV'')] ''cue_type'' = Some (PyStr [])
     \<and> MediaCue_from_dict no_str_to_float [(''cue_type'', PyStr []), (''media_type'', PyStr ''TV'')]
          = Inr ((default_cue [])\<lparr>cue_type := TV\<rparr>)"
  by (simp add: from_dict_eval)

end
